theory Spec2Isabelle
  imports Main "HOL-Library.Sublist"
begin

section \<open>Strings and POSIX paths\<close>

text \<open>
  JavaScript strings are modelled as \<open>string\<close>. The program only inspects the
  characters \<open>/\<close> and \<open>.\<close>, so nothing depends on the encoding of other characters.

  \<open>str_remove_first pattern s\<close> is \<open>s.replace(pattern, '')\<close> for a string pattern: the
  leftmost occurrence of the pattern is removed, and a string without an occurrence is
  returned as it is.
\<close>

fun str_remove_first :: "string \<Rightarrow> string \<Rightarrow> string" where
  "str_remove_first pattern [] = []"
| "str_remove_first pattern (c # cs) =
     (if prefix pattern (c # cs) then drop (length pattern) (c # cs)
      else c # str_remove_first pattern cs)"

definition endsWith :: "string \<Rightarrow> string \<Rightarrow> bool" where
  "endsWith s searchString = suffix searchString s"

text \<open>
  The \<open>path\<close> module is Node's, not the repository's. It is modelled as
  \<open>path.posix\<close>: \<open>split_path\<close> cuts a string at every \<open>/\<close>, \<open>join_sep\<close> puts the
  segments together again, and \<open>normalize_segments\<close> is the segment loop of
  \<open>normalizeString\<close>: empty and \<open>.\<close> segments are dropped, \<open>..\<close> removes the segment
  before it unless there is none or it is \<open>..\<close> itself, in which case \<open>..\<close> is kept when
  the path is relative (\<open>allowAboveRoot\<close>) and dropped when it is absolute.
\<close>

fun split_path :: "string \<Rightarrow> string list" where
  "split_path [] = [[]]"
| "split_path (c # cs) =
     (if c = CHR ''/'' then [] # split_path cs
      else (case split_path cs of
              [] \<Rightarrow> [[c]]
            | seg # segs \<Rightarrow> (c # seg) # segs))"

fun join_sep :: "string list \<Rightarrow> string" where
  "join_sep [] = []"
| "join_sep [seg] = seg"
| "join_sep (seg # seg' # segs) = seg @ ''/'' @ join_sep (seg' # segs)"

fun normalize_segments :: "bool \<Rightarrow> string list \<Rightarrow> string list \<Rightarrow> string list" where
  "normalize_segments allowAboveRoot res [] = res"
| "normalize_segments allowAboveRoot res (seg # segs) =
     (if seg = [] \<or> seg = ''.'' then normalize_segments allowAboveRoot res segs
      else if seg = ''..'' then
        (if res \<noteq> [] \<and> last res \<noteq> ''..''
           then normalize_segments allowAboveRoot (butlast res) segs
         else if allowAboveRoot
           then normalize_segments allowAboveRoot (res @ [''..'']) segs
         else normalize_segments allowAboveRoot res segs)
      else normalize_segments allowAboveRoot (res @ [seg]) segs)"

definition path_normalize :: "string \<Rightarrow> string" where
  "path_normalize p =
     (if p = [] then ''.''
      else
        (let isAbsolute = (hd p = CHR ''/'');
             trailingSeparator = (last p = CHR ''/'');
             q = join_sep (normalize_segments (\<not> isAbsolute) [] (split_path p))
         in if q = [] then
              (if isAbsolute then ''/'' else if trailingSeparator then ''./'' else ''.'')
            else (if isAbsolute then ''/'' else []) @ q
                 @ (if trailingSeparator then ''/'' else [])))"

text \<open>\<open>path.join(a, b)\<close>: the non-empty arguments are joined with \<open>/\<close> and normalized.\<close>

definition path_join :: "string \<Rightarrow> string \<Rightarrow> string" where
  "path_join a b =
     (if a = [] \<and> b = [] then ''.''
      else if a = [] then path_normalize b
      else if b = [] then path_normalize a
      else path_normalize (a @ ''/'' @ b))"

text \<open>
  \<open>path.dirname\<close>: the scan runs from the last character down to index 1, skips the
  trailing slashes, and cuts the string at the first slash it meets after a character
  that is not a slash.
\<close>

definition path_dirname :: "string \<Rightarrow> string" where
  "path_dirname p =
     (if p = [] then ''.''
      else
        (let hasRoot = (hd p = CHR ''/'');
             r = dropWhile (\<lambda>c. c \<noteq> CHR ''/'') (dropWhile (\<lambda>c. c = CHR ''/'') (rev (tl p)))
         in if r = [] then (if hasRoot then ''/'' else ''.'')
            else if hasRoot \<and> tl r = [] then ''//''
            else hd p # rev (tl r)))"

text \<open>A path whose segments are all ordinary names: none is empty, \<open>.\<close> or \<open>..\<close>.\<close>

definition plain_segment :: "string \<Rightarrow> bool" where
  "plain_segment seg = (seg \<noteq> [] \<and> seg \<noteq> ''.'' \<and> seg \<noteq> ''..'')"

definition plain_path :: "string \<Rightarrow> bool" where
  "plain_path p = list_all plain_segment (split_path p)"

section \<open>Configuration\<close>

text \<open>
  The constants at the top of \<open>s3-downloader.js\<close>, gathered in one record so that the
  statements below hold for every configuration. \<open>source_config\<close> holds the values the
  file ships with.
\<close>

record config =
  S3_BASE_PREFIX :: string
  DOWNLOAD_DIR :: string
  MAIN_FOLDERS :: "string list"
  FOLDERS_TO_DOWNLOAD :: "string list"
  JSON_FILES_TO_DOWNLOAD :: "string list"

definition source_config :: config where
  "source_config =
     \<lparr>S3_BASE_PREFIX = ''gis-data/folder/'',
      DOWNLOAD_DIR = ''./downloads'',
      MAIN_FOLDERS = [''folder1'', ''folder2'', ''folder3''],
      FOLDERS_TO_DOWNLOAD = [''videos/'', ''photos/''],
      JSON_FILES_TO_DOWNLOAD = [''config.json'', ''metadata.json'']\<rparr>"

text \<open>
  The two lines shared by both download loops:
  \<open>relativePath = fileKey.replace(S3_BASE_PREFIX, '')\<close> and
  \<open>localPath = path.join(DOWNLOAD_DIR, relativePath)\<close>.
\<close>

definition local_path :: "config \<Rightarrow> string \<Rightarrow> string" where
  "local_path cfg fileKey =
     (let relativePath = str_remove_first (S3_BASE_PREFIX cfg) fileKey
      in path_join (DOWNLOAD_DIR cfg) relativePath)"

section \<open>The object store, the local file system and the console\<close>

text \<open>
  Everything the script does to the outside goes through \<open>s3Client.send\<close>, three
  functions of the \<open>fs\<close> module and \<open>console\<close>. The store and the file system are
  parameters of the model: a client answers a command with a response or with the error it
  throws, and a file system answers \<open>existsSync\<close>, \<open>mkdirSync\<close> and the piped write,
  changing its state of type \<open>'fs\<close>. Nothing is assumed about either, so a statement
  proved for every client and every file system covers every failure they can produce.
  The bucket name is one constant in every command and is left out.
\<close>

datatype error = Error (message: string)

record list_request =
  Prefix :: string
  Delimiter :: "string option"
  ContinuationToken :: "string option"

record list_response =
  CommonPrefixes :: "string list option"
  Contents :: "string list option"
  IsTruncated :: bool
  NextContinuationToken :: "string option"

text \<open>
  The body of a \<open>GetObject\<close> response is a stream: the data it delivers, and whether it
  ends normally or with an error.
\<close>

datatype body = Body (chunks: string) (ends_ok: bool)

record s3_client =
  send_list :: "list_request \<Rightarrow> error + list_response"
  send_get :: "string \<Rightarrow> error + body"

text \<open>
  \<open>mkdirSync\<close> stands for \<open>fs.mkdirSync(dir, {recursive: true})\<close> and \<open>write_stream\<close>
  for \<open>pipeline(response.Body, fs.createWriteStream(localPath))\<close>. Both return the
  error they throw, if any, together with the state they leave behind, which may have
  changed even when they throw (a stream that breaks leaves a truncated file).
\<close>

record 'fs file_system =
  existsSync :: "'fs \<Rightarrow> string \<Rightarrow> bool"
  mkdirSync :: "'fs \<Rightarrow> string \<Rightarrow> error option \<times> 'fs"
  write_stream :: "'fs \<Rightarrow> string \<Rightarrow> body \<Rightarrow> error option \<times> 'fs"

text \<open>
  Of the console only the three lines of \<open>downloadFile\<close> are kept, one per call; the
  banners and the statistics printed by \<open>downloadFromS3\<close> are left out. \<open>get_requests\<close>
  records the key of every \<open>GetObjectCommand\<close> sent.
\<close>

datatype console_line =
  Skipped_line string
| Downloaded_line string
| Error_line string string

fun line_key :: "console_line \<Rightarrow> string" where
  "line_key (Skipped_line key) = key"
| "line_key (Downloaded_line key) = key"
| "line_key (Error_line key msg) = key"

record 'fs world =
  disk :: 'fs
  get_requests :: "string list"
  console :: "console_line list"

section \<open>Listing\<close>

text \<open>
  \<open>while (continuationToken)\<close> tests a value that is a string, \<open>null\<close> or
  \<open>undefined\<close>: it is true for a non-empty string only.
\<close>

definition truthy :: "string option \<Rightarrow> bool" where
  "truthy token = (case token of None \<Rightarrow> False | Some t \<Rightarrow> t \<noteq> [])"

definition next_token :: "list_response \<Rightarrow> string option" where
  "next_token response =
     (if IsTruncated response then NextContinuationToken response else None)"

text \<open>\<open>Set.prototype.add\<close> on a set that is read back in insertion order.\<close>

definition set_add :: "'a \<Rightarrow> 'a list \<Rightarrow> 'a list" where
  "set_add x xs = (if x \<in> set xs then xs else xs @ [x])"

text \<open>
  The two \<open>do ... while\<close> loops. A provider that hands out tokens for ever keeps them
  running, so they are partial functions: \<open>None\<close> is the loop that never returns,
  \<open>Some (Inl e)\<close> the error that \<open>send\<close> threw, \<open>Some (Inr xs)\<close> the returned array.
\<close>

partial_function (option) listFolders_loop ::
  "s3_client \<Rightarrow> string \<Rightarrow> string option \<Rightarrow> string list \<Rightarrow> (error + string list) option"
where
  "listFolders_loop s3 pfx continuationToken folders =
     (case send_list s3
             \<lparr>Prefix = pfx, Delimiter = Some ''/'', ContinuationToken = continuationToken\<rparr> of
        Inl e \<Rightarrow> Some (Inl e)
      | Inr response \<Rightarrow>
          (let folders' = (case CommonPrefixes response of
                             None \<Rightarrow> folders
                           | Some items \<Rightarrow> fold set_add items folders);
               continuationToken' = next_token response
           in if truthy continuationToken'
              then listFolders_loop s3 pfx continuationToken' folders'
              else Some (Inr folders')))"

declare listFolders_loop.simps [code]

definition listFolders :: "s3_client \<Rightarrow> string \<Rightarrow> (error + string list) option" where
  "listFolders s3 pfx = listFolders_loop s3 pfx None []"

partial_function (option) listAllFiles_loop ::
  "s3_client \<Rightarrow> string \<Rightarrow> string option \<Rightarrow> string list \<Rightarrow> (error + string list) option"
where
  "listAllFiles_loop s3 pfx continuationToken files =
     (case send_list s3
             \<lparr>Prefix = pfx, Delimiter = None, ContinuationToken = continuationToken\<rparr> of
        Inl e \<Rightarrow> Some (Inl e)
      | Inr response \<Rightarrow>
          (let files' = (case Contents response of
                           None \<Rightarrow> files
                         | Some items \<Rightarrow> files @ items);
               continuationToken' = next_token response
           in if truthy continuationToken'
              then listAllFiles_loop s3 pfx continuationToken' files'
              else Some (Inr files')))"

declare listAllFiles_loop.simps [code]

definition listAllFiles :: "s3_client \<Rightarrow> string \<Rightarrow> (error + string list) option" where
  "listAllFiles s3 pfx = listAllFiles_loop s3 pfx None []"

text \<open>
  The pages a provider serves from a token on: each request is answered by the next page,
  every page but the last carries a token that the loop takes as one, and the last
  carries none.
\<close>

fun serves ::
  "s3_client \<Rightarrow> string \<Rightarrow> string option \<Rightarrow> string option \<Rightarrow> list_response list \<Rightarrow> bool"
where
  "serves s3 pfx delim token [] = False"
| "serves s3 pfx delim token (page # pages) =
     (send_list s3 \<lparr>Prefix = pfx, Delimiter = delim, ContinuationToken = token\<rparr> = Inr page
      \<and> (if truthy (next_token page) then serves s3 pfx delim (next_token page) pages
         else pages = []))"

text \<open>The same pages, but the request after the last of them is answered by an error.\<close>

fun serves_then_fails ::
  "s3_client \<Rightarrow> string \<Rightarrow> string option \<Rightarrow> string option \<Rightarrow> list_response list \<Rightarrow> error
   \<Rightarrow> bool"
where
  "serves_then_fails s3 pfx delim token [] e =
     (send_list s3 \<lparr>Prefix = pfx, Delimiter = delim, ContinuationToken = token\<rparr> = Inl e)"
| "serves_then_fails s3 pfx delim token (page # pages) e =
     (send_list s3 \<lparr>Prefix = pfx, Delimiter = delim, ContinuationToken = token\<rparr> = Inr page
      \<and> truthy (next_token page)
      \<and> serves_then_fails s3 pfx delim (next_token page) pages e)"

definition page_keys :: "list_response \<Rightarrow> string list" where
  "page_keys page = (case Contents page of None \<Rightarrow> [] | Some items \<Rightarrow> items)"

definition page_prefixes :: "list_response \<Rightarrow> string list" where
  "page_prefixes page = (case CommonPrefixes page of None \<Rightarrow> [] | Some items \<Rightarrow> items)"

section \<open>Fetching one object\<close>

text \<open>\<open>downloadFile\<close> returns \<open>true\<close>, \<open>'skipped'\<close> or \<open>false\<close>.\<close>

datatype outcome = Downloaded | Skipped | Failed

text \<open>The outcome a console line reports, and how many lines report a given outcome.\<close>

fun line_outcome :: "console_line \<Rightarrow> outcome" where
  "line_outcome (Skipped_line key) = Skipped"
| "line_outcome (Downloaded_line key) = Downloaded"
| "line_outcome (Error_line key msg) = Failed"

definition count_outcome :: "outcome \<Rightarrow> console_line list \<Rightarrow> nat" where
  "count_outcome result lines = length (filter (\<lambda>line. line_outcome line = result) lines)"

definition downloadFile ::
  "s3_client \<Rightarrow> 'fs file_system \<Rightarrow> string \<Rightarrow> string \<Rightarrow> 'fs world \<Rightarrow> outcome \<times> 'fs world"
where
  "downloadFile s3 fsys key localPath w =
     (if existsSync fsys (disk w) localPath then
        (Skipped, w\<lparr>console := console w @ [Skipped_line key]\<rparr>)
      else
        (let w1 = w\<lparr>get_requests := get_requests w @ [key]\<rparr> in
         case send_get s3 key of
           Inl e \<Rightarrow> (Failed, w1\<lparr>console := console w1 @ [Error_line key (message e)]\<rparr>)
         | Inr response_Body \<Rightarrow>
             (let dir = path_dirname localPath;
                  (mkdir_error, d1) =
                     (if \<not> existsSync fsys (disk w1) dir then mkdirSync fsys (disk w1) dir
                      else (None, disk w1))
              in case mkdir_error of
                   Some e \<Rightarrow>
                     (Failed, w1\<lparr>disk := d1,
                                 console := console w1 @ [Error_line key (message e)]\<rparr>)
                 | None \<Rightarrow>
                     (let (write_error, d2) = write_stream fsys d1 localPath response_Body
                      in case write_error of
                           Some e \<Rightarrow>
                             (Failed, w1\<lparr>disk := d2,
                                         console := console w1 @ [Error_line key (message e)]\<rparr>)
                         | None \<Rightarrow>
                             (Downloaded, w1\<lparr>disk := d2,
                                             console := console w1 @ [Downloaded_line key]\<rparr>)))))"

section \<open>The run\<close>

text \<open>
  The five counters of \<open>downloadFromS3\<close>. They start at 0 and only ever grow by 1, so
  natural numbers stand for the JavaScript numbers.
\<close>

record stats =
  totalDownloaded :: nat
  totalFailed :: nat
  totalFolders :: nat
  totalRecordFolders :: nat
  totalSkipped :: nat

definition initial_stats :: stats where
  "initial_stats =
     \<lparr>totalDownloaded = 0, totalFailed = 0, totalFolders = 0, totalRecordFolders = 0,
      totalSkipped = 0\<rparr>"

text \<open>The \<open>if / else if / else\<close> that follows each call of \<open>downloadFile\<close>.\<close>

definition tally :: "outcome \<Rightarrow> stats \<Rightarrow> stats" where
  "tally success st =
     (if success = Downloaded then st\<lparr>totalDownloaded := totalDownloaded st + 1\<rparr>
      else if success = Skipped then st\<lparr>totalSkipped := totalSkipped st + 1\<rparr>
      else st\<lparr>totalFailed := totalFailed st + 1\<rparr>)"

text \<open>
  A piece of the run takes the counters and the world and either never returns
  (\<open>None\<close>), throws (\<open>Inl\<close>: the counters are lost, the world stays as it was left) or
  completes with new counters. \<open>and_then\<close> is sequencing, \<open>for_each\<close> a \<open>for ... of\<close>
  loop; an error thrown by the body leaves the loop.
\<close>

type_synonym 'w command = "stats \<Rightarrow> 'w \<Rightarrow> ((error + stats) \<times> 'w) option"

definition and_then :: "((error + stats) \<times> 'w) option \<Rightarrow> 'w command \<Rightarrow> ((error + stats) \<times> 'w) option"
where
  "and_then r f =
     (case r of
        None \<Rightarrow> None
      | Some (Inl e, w) \<Rightarrow> Some (Inl e, w)
      | Some (Inr st, w) \<Rightarrow> f st w)"

primrec for_each :: "('a \<Rightarrow> 'w command) \<Rightarrow> 'a list \<Rightarrow> 'w command" where
  "for_each f [] st w = Some (Inr st, w)"
| "for_each f (x # xs) st w = and_then (f x st w) (for_each f xs)"

text \<open>The body shared by the two innermost loops: derive the path, fetch, count.\<close>

definition download_and_count ::
  "s3_client \<Rightarrow> 'fs file_system \<Rightarrow> config \<Rightarrow> string \<Rightarrow> 'fs world command"
where
  "download_and_count s3 fsys cfg fileKey st w =
     (let localPath = local_path cfg fileKey;
          (success, w') = downloadFile s3 fsys fileKey localPath w
      in Some (Inr (tally success st), w'))"

definition target_folder_body ::
  "s3_client \<Rightarrow> 'fs file_system \<Rightarrow> config \<Rightarrow> string \<Rightarrow> string \<Rightarrow> 'fs world command"
where
  "target_folder_body s3 fsys cfg subFolder targetFolder st w =
     (let fullPrefix = subFolder @ targetFolder in
      case listAllFiles s3 fullPrefix of
        None \<Rightarrow> None
      | Some (Inl e) \<Rightarrow> Some (Inl e, w)
      | Some (Inr files) \<Rightarrow>
          (let actualFiles = filter (\<lambda>key. \<not> endsWith key ''/'') files
           in if length actualFiles = 0 then Some (Inr st, w)
              else for_each (download_and_count s3 fsys cfg) actualFiles st w))"

definition record_folder_body ::
  "s3_client \<Rightarrow> 'fs file_system \<Rightarrow> config \<Rightarrow> string \<Rightarrow> 'fs world command"
where
  "record_folder_body s3 fsys cfg subFolder st w =
     and_then
       (for_each (\<lambda>jsonFile. download_and_count s3 fsys cfg (subFolder @ jsonFile))
          (JSON_FILES_TO_DOWNLOAD cfg)
          (st\<lparr>totalRecordFolders := totalRecordFolders st + 1\<rparr>) w)
       (for_each (target_folder_body s3 fsys cfg subFolder) (FOLDERS_TO_DOWNLOAD cfg))"

definition main_folder_body ::
  "s3_client \<Rightarrow> 'fs file_system \<Rightarrow> config \<Rightarrow> string \<Rightarrow> 'fs world command"
where
  "main_folder_body s3 fsys cfg mainFolder st w =
     (let scanPrefix = S3_BASE_PREFIX cfg @ mainFolder @ ''/'' in
      case listFolders s3 scanPrefix of
        None \<Rightarrow> None
      | Some (Inl e) \<Rightarrow> Some (Inl e, w)
      | Some (Inr subFolders) \<Rightarrow>
          if length subFolders = 0 then Some (Inr st, w)
          else and_then (for_each (record_folder_body s3 fsys cfg) subFolders st w)
                 (\<lambda>st' w'. Some (Inr (st'\<lparr>totalFolders := totalFolders st' + 1\<rparr>), w')))"

definition downloadFromS3 ::
  "s3_client \<Rightarrow> 'fs file_system \<Rightarrow> config \<Rightarrow> 'fs world
   \<Rightarrow> ((error + stats) \<times> 'fs world) option"
where
  "downloadFromS3 s3 fsys cfg w =
     for_each (main_folder_body s3 fsys cfg) (MAIN_FOLDERS cfg) initial_stats w"

text \<open>
  The last statement of the script: \<open>downloadFromS3().catch(...)\<close> calls
  \<open>process.exit(1)\<close> when the run throws; a run that completes lets the process end with
  code 0.
\<close>

definition exit_code :: "((error + stats) \<times> 'w) option \<Rightarrow> nat option" where
  "exit_code r =
     (case r of
        None \<Rightarrow> None
      | Some (Inl e, w) \<Rightarrow> Some 1
      | Some (Inr st, w) \<Rightarrow> Some 0)"

definition script ::
  "s3_client \<Rightarrow> 'fs file_system \<Rightarrow> config \<Rightarrow> 'fs world \<Rightarrow> nat option"
where
  "script s3 fsys cfg w = exit_code (downloadFromS3 s3 fsys cfg w)"

text \<open>What the run has to list: the scan prefix of a main folder and its record folders.\<close>

definition scan_prefix :: "config \<Rightarrow> string \<Rightarrow> string" where
  "scan_prefix cfg mainFolder = S3_BASE_PREFIX cfg @ mainFolder @ ''/''"

definition record_folders :: "s3_client \<Rightarrow> config \<Rightarrow> string \<Rightarrow> string list" where
  "record_folders s3 cfg mainFolder =
     (case listFolders s3 (scan_prefix cfg mainFolder) of
        Some (Inr subFolders) \<Rightarrow> subFolders
      | _ \<Rightarrow> [])"

section \<open>A file system of files and directories\<close>

text \<open>
  For statements about two runs the file system has to be a definite one. \<open>posix_fs\<close>
  maps the paths that exist to what they are. The working directory and the root always
  exist. A directory can be made under directories only, a file can be opened for writing
  in an existing directory only, and nothing else keeps an operation from succeeding.
\<close>

datatype node = File string | Dir

type_synonym tree = "string \<Rightarrow> node option"

definition is_root :: "string \<Rightarrow> bool" where
  "is_root p = (p = ''.'' \<or> p = ''/'')"

definition is_file :: "tree \<Rightarrow> string \<Rightarrow> bool" where
  "is_file t p = (case t p of Some (File content) \<Rightarrow> True | _ \<Rightarrow> False)"

definition is_dir :: "tree \<Rightarrow> string \<Rightarrow> bool" where
  "is_dir t p = (is_root p \<or> t p = Some Dir)"

text \<open>A path and the directories above it, the nearest first, without the root.\<close>

function ancestors :: "string \<Rightarrow> string list" where
  "ancestors p = (if p = [] \<or> is_root p then [] else p # ancestors (path_dirname p))"
  by pat_completeness auto
termination
proof (relation "measure (\<lambda>p. if is_root p then 0 else length p + 1)")
  show "wf (measure (\<lambda>p. if is_root p then 0 else length p + 1))"
    by simp
next
  fix p :: string
  assume a: "\<not> (p = [] \<or> is_root p)"
  define r1 where "r1 = dropWhile (\<lambda>c. c = CHR ''/'') (rev (tl p))"
  define r where "r = dropWhile (\<lambda>c. c \<noteq> CHR ''/'') r1"
  have l1: "length r1 \<le> length p - 1"
    unfolding r1_def using length_dropWhile_le [of "\<lambda>c. c = CHR ''/''" "rev (tl p)"] by simp
  have l3: "length r < length r1" if "r \<noteq> []"
  proof -
    from that have n: "r1 \<noteq> []"
      by (auto simp: r_def)
    then have "\<not> (hd r1 = CHR ''/'')"
      unfolding r1_def using hd_dropWhile [of "\<lambda>c. c = CHR ''/''" "rev (tl p)"] by simp
    then have "r = dropWhile (\<lambda>c. c \<noteq> CHR ''/'') (tl r1)"
      using n by (cases r1) (auto simp: r_def)
    then have "length r \<le> length (tl r1)"
      using length_dropWhile_le [of "\<lambda>c. c \<noteq> CHR ''/''" "tl r1"] by simp
    then show ?thesis
      using n by (cases r1) auto
  qed
  have d: "path_dirname p =
             (if r = [] then (if hd p = CHR ''/'' then ''/'' else ''.'')
              else if hd p = CHR ''/'' \<and> tl r = [] then ''//''
              else hd p # rev (tl r))"
  proof -
    have "p \<noteq> []" using a by simp
    then show ?thesis
      unfolding path_dirname_def r_def r1_def Let_def by (simp only: if_False)
  qed
  have "is_root (path_dirname p) \<or> length (path_dirname p) < length p"
  proof (cases "r = []")
    case True
    then show ?thesis by (simp add: d is_root_def)
  next
    case False
    have "length r + 1 < length p"
      using l3 [OF False] l1 by simp
    moreover have "length r \<ge> 1"
      using False by (cases r) auto
    ultimately show ?thesis
      using False by (auto simp: d)
  qed
  then show "(path_dirname p, p) \<in> measure (\<lambda>p. if is_root p then 0 else length p + 1)"
    using a by auto
qed

declare ancestors.simps [simp del]

definition tree_exists :: "tree \<Rightarrow> string \<Rightarrow> bool" where
  "tree_exists t p = (is_root p \<or> t p \<noteq> None)"

definition tree_mkdir :: "tree \<Rightarrow> string \<Rightarrow> error option \<times> tree" where
  "tree_mkdir t p =
     (if list_ex (is_file t) (ancestors p) then (Some (Error ''ENOTDIR''), t)
      else (None, fold (\<lambda>a t'. if t' a = None then t'(a \<mapsto> Dir) else t') (ancestors p) t))"

definition tree_write :: "tree \<Rightarrow> string \<Rightarrow> body \<Rightarrow> error option \<times> tree" where
  "tree_write t p b =
     (if is_dir t p then (Some (Error ''EISDIR''), t)
      else if \<not> is_dir t (path_dirname p) then (Some (Error ''ENOENT''), t)
      else if ends_ok b then (None, t(p \<mapsto> File (chunks b)))
      else (Some (Error ''aborted''), t(p \<mapsto> File (chunks b))))"

definition posix_fs :: "tree file_system" where
  "posix_fs =
     \<lparr>existsSync = tree_exists, mkdirSync = tree_mkdir, write_stream = tree_write\<rparr>"

text \<open>What exists lies in a directory.\<close>

definition well_formed :: "tree \<Rightarrow> bool" where
  "well_formed t = (\<forall>p. t p \<noteq> None \<longrightarrow> is_dir t (path_dirname p))"

section \<open>Stores used as examples\<close>

text \<open>
  A store that answers every listing in two pages, the second reached through the token
  \<open>t1\<close>, and one whose second page fails.
\<close>

definition first_page :: list_response where
  "first_page =
     \<lparr>CommonPrefixes = Some [''p/a/'', ''p/b/''], Contents = Some [''p/x.jpg''],
      IsTruncated = True, NextContinuationToken = Some ''t1''\<rparr>"

definition second_page :: list_response where
  "second_page =
     \<lparr>CommonPrefixes = Some [''p/b/'', ''p/c/''], Contents = Some [''p/y.jpg'', ''p/z.jpg''],
      IsTruncated = False, NextContinuationToken = None\<rparr>"

definition two_page_store :: s3_client where
  "two_page_store =
     \<lparr>send_list = (\<lambda>request.
        if ContinuationToken request = None then Inr first_page
        else if ContinuationToken request = Some ''t1'' then Inr second_page
        else Inl (Error ''InvalidArgument'')),
      send_get = (\<lambda>key. Inl (Error ''NoSuchKey''))\<rparr>"

definition broken_store :: s3_client where
  "broken_store =
     \<lparr>send_list = (\<lambda>request.
        if ContinuationToken request = None then Inr first_page
        else Inl (Error ''RequestTimeout'')),
      send_get = (\<lambda>key. Inl (Error ''NoSuchKey''))\<rparr>"

text \<open>
  A small bucket: the main folder \<open>folder1\<close> holds the record folder \<open>rec-1\<close> with
  \<open>metadata.json\<close> (but no \<open>config.json\<close>), a folder marker and two photos, the
  second of which breaks off while it is streamed; \<open>folder2\<close> is empty. Every listing
  fits in one page.
\<close>

definition single_page :: "string list \<Rightarrow> string list \<Rightarrow> list_response" where
  "single_page folders keys =
     \<lparr>CommonPrefixes = Some folders, Contents = Some keys, IsTruncated = False,
      NextContinuationToken = None\<rparr>"

definition demo_store :: s3_client where
  "demo_store =
     \<lparr>send_list = (\<lambda>request.
        if Delimiter request = Some ''/'' then
          (if Prefix request = ''base/folder1/''
           then Inr (single_page [''base/folder1/rec-1/''] [])
           else Inr (single_page [] []))
        else if Prefix request = ''base/folder1/rec-1/photos/'' then
          Inr (single_page []
                 [''base/folder1/rec-1/photos/'', ''base/folder1/rec-1/photos/img1.jpg'',
                  ''base/folder1/rec-1/photos/img2.jpg''])
        else Inr (single_page [] [])),
      send_get = (\<lambda>key.
        if key = ''base/folder1/rec-1/metadata.json'' then Inr (Body ''{}'' True)
        else if key = ''base/folder1/rec-1/photos/img1.jpg'' then Inr (Body ''JPEG'' True)
        else if key = ''base/folder1/rec-1/photos/img2.jpg'' then Inr (Body ''JP'' False)
        else Inl (Error ''NoSuchKey''))\<rparr>"

definition demo_config :: config where
  "demo_config =
     \<lparr>S3_BASE_PREFIX = ''base/'', DOWNLOAD_DIR = ''out'',
      MAIN_FOLDERS = [''folder1'', ''folder2''],
      FOLDERS_TO_DOWNLOAD = [''photos/''],
      JSON_FILES_TO_DOWNLOAD = [''config.json'', ''metadata.json'']\<rparr>"

definition empty_world :: "tree world" where
  "empty_world = \<lparr>disk = Map.empty, get_requests = [], console = []\<rparr>"

section \<open>Relations between two states of a run\<close>

text \<open>No counter is smaller in the second record than in the first.\<close>

definition counters_le :: "stats \<Rightarrow> stats \<Rightarrow> bool" where
  "counters_le st st' =
     (totalDownloaded st \<le> totalDownloaded st' \<and> totalSkipped st \<le> totalSkipped st'
      \<and> totalFailed st \<le> totalFailed st' \<and> totalFolders st \<le> totalFolders st'
      \<and> totalRecordFolders st \<le> totalRecordFolders st')"

text \<open>
  The console has grown by some lines, and each of the three outcome counters by the
  number of new lines that report its outcome.
\<close>

definition accounted :: "stats \<times> 'fs world \<Rightarrow> stats \<times> 'fs world \<Rightarrow> bool" where
  "accounted a b =
     (\<exists>lines. console (snd b) = console (snd a) @ lines
        \<and> totalDownloaded (fst b) = totalDownloaded (fst a) + count_outcome Downloaded lines
        \<and> totalSkipped (fst b) = totalSkipped (fst a) + count_outcome Skipped lines
        \<and> totalFailed (fst b) = totalFailed (fst a) + count_outcome Failed lines
        \<and> totalFolders (fst a) \<le> totalFolders (fst b)
        \<and> totalRecordFolders (fst a) \<le> totalRecordFolders (fst b))"

text \<open>
  A fetch of \<open>key\<close> to \<open>localPath\<close> is settled in a tree when it can no longer download
  anything there: the path exists, or the store refuses the key, or a file stands where a
  directory of the path would have to be.
\<close>

definition settled :: "s3_client \<Rightarrow> tree \<Rightarrow> string \<Rightarrow> string \<Rightarrow> bool" where
  "settled s3 t key localPath =
     (tree_exists t localPath \<or> isl (send_get s3 key)
      \<or> list_ex (is_file t) (ancestors (path_dirname localPath)))"

text \<open>
  How the console line of a fetch in a second run relates to the line of the same fetch in
  the first: the key is the same, the second is not a download, and it is a skip unless
  the first was a failure.
\<close>

definition rerun_line :: "console_line \<Rightarrow> console_line \<Rightarrow> bool" where
  "rerun_line first second =
     (line_key second = line_key first \<and> line_outcome second \<noteq> Downloaded
      \<and> (line_outcome first = Failed \<or> line_outcome second = Skipped))"

text \<open>
  How the second run of a piece of the run ends, started with the counters \<open>st\<close>: with the
  error the first run threw, or, if the first completed, with \<open>totalDownloaded\<close> as it
  was at the start.
\<close>

definition rerun_result :: "error + stats \<Rightarrow> stats \<Rightarrow> error + stats \<Rightarrow> bool" where
  "rerun_result first st second =
     (case first of
        Inl e \<Rightarrow> second = Inl e
      | Inr st1 \<Rightarrow>
          (case second of
             Inl e \<Rightarrow> False
           | Inr st2 \<Rightarrow> totalDownloaded st2 = totalDownloaded st))"

text \<open>
  A piece of the run replays when, run on a well-formed tree, it leaves a well-formed tree
  that extends the first, and when run again on any well-formed tree that extends the one
  it left, it leaves that tree as it is and ends and reports as a second run should.
\<close>

definition replays :: "tree world command \<Rightarrow> bool" where
  "replays c =
     (\<forall>st w r w1. well_formed (disk w) \<longrightarrow> c st w = Some (r, w1) \<longrightarrow>
        well_formed (disk w1) \<and> disk w \<subseteq>\<^sub>m disk w1
        \<and> (\<exists>lines1. console w1 = console w @ lines1
             \<and> (\<forall>st2 w2. well_formed (disk w2) \<longrightarrow> disk w1 \<subseteq>\<^sub>m disk w2 \<longrightarrow>
                  (\<exists>r2 w3 lines2. c st2 w2 = Some (r2, w3) \<and> disk w3 = disk w2
                     \<and> rerun_result r st2 r2 \<and> console w3 = console w2 @ lines2
                     \<and> list_all2 rerun_line lines1 lines2))))"

section \<open>Path lemmas\<close>

lemma str_remove_first_prefix: "str_remove_first pattern (pattern @ rest) = rest"
proof (cases "pattern @ rest")
  case Nil
  then show ?thesis by simp
next
  case (Cons c cs)
  have "prefix pattern (c # cs)"
    using Cons by (metis prefixI)
  then have "str_remove_first pattern (c # cs) = drop (length pattern) (c # cs)"
    by simp
  then show ?thesis
    using Cons by (metis append_eq_conv_conj)
qed

lemma split_path_not_Nil: "split_path p \<noteq> []"
  by (induction p) (auto split: list.splits)

lemma split_path_sep: "split_path (a @ CHR ''/'' # b) = split_path a @ split_path b"
  by (induction a) (auto split: list.splits simp: split_path_not_Nil)

lemma join_sep_append:
  "xs \<noteq> [] \<Longrightarrow> ys \<noteq> [] \<Longrightarrow> join_sep (xs @ ys) = join_sep xs @ CHR ''/'' # join_sep ys"
  by (induction xs rule: join_sep.induct) (auto simp: neq_Nil_conv)

lemma join_split: "join_sep (split_path p) = p"
proof (induction p)
  case Nil
  show ?case by simp
next
  case (Cons c cs)
  show ?case
  proof (cases "c = CHR ''/''")
    case True
    obtain seg segs where "split_path cs = seg # segs"
      using split_path_not_Nil [of cs] by (cases "split_path cs") auto
    with True Cons show ?thesis by simp
  next
    case False
    obtain seg segs where s: "split_path cs = seg # segs"
      using split_path_not_Nil [of cs] by (cases "split_path cs") auto
    with False Cons show ?thesis by (cases segs) auto
  qed
qed

lemma split_path_no_sep: "seg \<in> set (split_path p) \<Longrightarrow> CHR ''/'' \<notin> set seg"
  by (induction p arbitrary: seg) (auto split: if_splits list.splits)

lemma split_join:
  "segs \<noteq> [] \<Longrightarrow> \<forall>seg \<in> set segs. CHR ''/'' \<notin> set seg \<Longrightarrow> split_path (join_sep segs) = segs"
proof (induction segs rule: join_sep.induct)
  case 1
  then show ?case by simp
next
  case (2 seg)
  then show ?case by (induction seg) auto
next
  case (3 seg seg' segs)
  have "split_path seg = [seg]"
    using 3(3) by (induction seg) auto
  with 3 show ?case by (simp add: split_path_sep)
qed

lemma normalize_segments_plain:
  "list_all plain_segment segs \<Longrightarrow> normalize_segments a res segs = res @ segs"
  by (induction segs arbitrary: res) (auto simp: plain_segment_def)

lemma normalize_segments_append:
  "normalize_segments a res (xs @ ys) = normalize_segments a (normalize_segments a res xs) ys"
  by (induction xs arbitrary: res) auto

lemma normalize_segments_no_sep:
  "\<forall>seg \<in> set res \<union> set segs. CHR ''/'' \<notin> set seg \<Longrightarrow>
   \<forall>seg \<in> set (normalize_segments a res segs). CHR ''/'' \<notin> set seg"
proof (induction segs arbitrary: res)
  case Nil
  then show ?case by simp
next
  case (Cons seg segs)
  have b: "\<forall>s \<in> set (butlast res) \<union> set segs. CHR ''/'' \<notin> set s"
    using Cons.prems by (auto dest: in_set_butlastD)
  have d: "\<forall>s \<in> set (res @ [''..'']) \<union> set segs. CHR ''/'' \<notin> set s"
    using Cons.prems by auto
  have p: "\<forall>s \<in> set (res @ [seg]) \<union> set segs. CHR ''/'' \<notin> set s"
    using Cons.prems by auto
  have k: "\<forall>s \<in> set res \<union> set segs. CHR ''/'' \<notin> set s"
    using Cons.prems by auto
  show ?case
    using Cons.IH [OF b] Cons.IH [OF d] Cons.IH [OF p] Cons.IH [OF k] by simp
qed

lemma plain_path_not_Nil: "plain_path p \<Longrightarrow> p \<noteq> []"
  by (auto simp: plain_path_def plain_segment_def)

lemma plain_path_hd: "plain_path p \<Longrightarrow> hd p \<noteq> CHR ''/''"
  by (cases p) (auto simp: plain_path_def plain_segment_def)

lemma plain_path_last: "plain_path p \<Longrightarrow> last p \<noteq> CHR ''/''"
proof
  assume pl: "plain_path p" and l: "last p = CHR ''/''"
  have "p \<noteq> []"
    using pl by (rule plain_path_not_Nil)
  then have "p = butlast p @ CHR ''/'' # []"
    using l by (metis append_butlast_last_id)
  then have "split_path p = split_path (butlast p) @ split_path []"
    by (metis split_path_sep)
  then have "[] \<in> set (split_path p)"
    by simp
  then show False
    using pl by (auto simp: plain_path_def plain_segment_def list_all_iff)
qed


lemma path_normalize_plain: "plain_path p \<Longrightarrow> path_normalize p = p"
proof -
  assume pl: "plain_path p"
  have n: "p \<noteq> []"
    using pl by (rule plain_path_not_Nil)
  have "normalize_segments True [] (split_path p) = split_path p"
    using pl normalize_segments_plain [of "split_path p" True "[]"]
    by (simp add: plain_path_def)
  then have "join_sep (normalize_segments True [] (split_path p)) = p"
    by (simp add: join_split)
  then show ?thesis
    using n plain_path_hd [OF pl] plain_path_last [OF pl]
    by (simp add: path_normalize_def Let_def)
qed

lemma join_sep_plain_not_Nil:
  assumes "list_all plain_segment ys" "ys \<noteq> []"
  shows "join_sep (xs @ ys) \<noteq> []"
proof -
  obtain y where y: "y \<in> set ys" "y \<noteq> []"
    using assms by (cases ys) (auto simp: plain_segment_def)
  have "seg \<in> set zs \<Longrightarrow> seg \<noteq> [] \<Longrightarrow> join_sep zs \<noteq> []" for seg zs
    by (induction zs rule: join_sep.induct) auto
  then show ?thesis
    using y by (metis Un_iff set_append)
qed

text \<open>
  What \<open>path.join\<close> makes of a first argument and a plain second one: the normalized
  segments of the first, followed by the segments of the second.
\<close>

lemma path_join_plain_second:
  assumes pl: "plain_path b" and a: "a \<noteq> []"
  shows "path_join a b =
           (if hd a = CHR ''/'' then ''/'' else [])
           @ join_sep (normalize_segments (hd a \<noteq> CHR ''/'') [] (split_path a) @ split_path b)"
proof -
  have b: "b \<noteq> []"
    using pl by (rule plain_path_not_Nil)
  let ?p = "a @ CHR ''/'' # b"
  let ?R = "normalize_segments (hd a \<noteq> CHR ''/'') [] (split_path a)"
  have h: "hd ?p = hd a"
    using a by simp
  have l: "last ?p \<noteq> CHR ''/''"
    using b plain_path_last [OF pl] by simp
  have "normalize_segments (hd a \<noteq> CHR ''/'') [] (split_path ?p) = ?R @ split_path b"
    using pl
    by (simp add: split_path_sep normalize_segments_append normalize_segments_plain
        plain_path_def)
  moreover have "join_sep (?R @ split_path b) \<noteq> []"
    using pl by (intro join_sep_plain_not_Nil) (auto simp: plain_path_def split_path_not_Nil)
  ultimately show ?thesis
    using a b h l by (simp add: path_join_def path_normalize_def Let_def)
qed

lemma path_join_plain: "plain_path a \<Longrightarrow> plain_path b \<Longrightarrow> path_join a b = a @ ''/'' @ b"
proof -
  assume pa: "plain_path a" and pb: "plain_path b"
  have a: "a \<noteq> []"
    using pa by (rule plain_path_not_Nil)
  have "normalize_segments True [] (split_path a) = split_path a"
    using pa normalize_segments_plain [of "split_path a" True "[]"]
    by (simp add: plain_path_def)
  then show ?thesis
    using path_join_plain_second [OF pb a] plain_path_hd [OF pa]
    by (simp add: join_sep_append split_path_not_Nil join_split)
qed

lemma path_join_inj:
  assumes p1: "plain_path b1" and p2: "plain_path b2"
    and eq: "path_join a b1 = path_join a b2"
  shows "b1 = b2"
proof (cases "a = []")
  case True
  have "b1 \<noteq> []" "b2 \<noteq> []"
    using p1 p2 by (auto dest: plain_path_not_Nil)
  then show ?thesis
    using True eq path_normalize_plain [OF p1] path_normalize_plain [OF p2]
    by (simp add: path_join_def)
next
  case False
  let ?R = "normalize_segments (hd a \<noteq> CHR ''/'') [] (split_path a)"
  have q: "join_sep (?R @ split_path b1) = join_sep (?R @ split_path b2)"
    using eq path_join_plain_second [OF p1 False] path_join_plain_second [OF p2 False]
    by simp
  have R: "\<forall>seg \<in> set ?R. CHR ''/'' \<notin> set seg"
    by (rule normalize_segments_no_sep) (auto dest: split_path_no_sep)
  have s: "split_path (join_sep (?R @ split_path b)) = ?R @ split_path b" for b
    by (rule split_join) (use R in \<open>auto simp: split_path_not_Nil dest: split_path_no_sep\<close>)
  from q have "split_path (join_sep (?R @ split_path b1))
                = split_path (join_sep (?R @ split_path b2))"
    by (rule arg_cong)
  then have "?R @ split_path b1 = ?R @ split_path b2"
    by (simp only: s)
  then have "join_sep (split_path b1) = join_sep (split_path b2)"
    by simp
  then show ?thesis
    by (simp add: join_split)
qed


section \<open>Listing lemmas\<close>

lemma set_fold_set_add: "set (fold set_add items acc) = set acc \<union> set items"
  by (induction items arbitrary: acc) (auto simp: set_add_def)

lemma distinct_fold_set_add: "distinct acc \<Longrightarrow> distinct (fold set_add items acc)"
  by (induction items arbitrary: acc) (auto simp: set_add_def)

lemma listAllFiles_loop_returns:
  "serves s3 pfx None token pages \<Longrightarrow>
   listAllFiles_loop s3 pfx token files = Some (Inr (files @ concat (map page_keys pages)))"
proof (induction pages arbitrary: token files)
  case Nil
  then show ?case by simp
next
  case (Cons page pages)
  have s: "send_list s3 \<lparr>Prefix = pfx, Delimiter = None, ContinuationToken = token\<rparr> = Inr page"
    using Cons.prems by simp
  have f: "(case Contents page of None \<Rightarrow> files | Some items \<Rightarrow> files @ items)
           = files @ page_keys page"
    by (simp add: page_keys_def split: option.splits)
  show ?case
  proof (cases "truthy (next_token page)")
    case True
    then have "serves s3 pfx None (next_token page) pages"
      using Cons.prems by simp
    from Cons.IH [OF this] show ?thesis
      using s True by (subst listAllFiles_loop.simps) (simp add: f)
  next
    case False
    then have "pages = []"
      using Cons.prems by simp
    then show ?thesis
      using s False by (subst listAllFiles_loop.simps) (simp add: f)
  qed
qed

lemma listAllFiles_loop_throws:
  "serves_then_fails s3 pfx None token pages e \<Longrightarrow>
   listAllFiles_loop s3 pfx token files = Some (Inl e)"
proof (induction pages arbitrary: token files)
  case Nil
  then show ?case
    by (subst listAllFiles_loop.simps) simp
next
  case (Cons page pages)
  then show ?case
    by (subst listAllFiles_loop.simps) simp
qed

lemma listAllFiles_loop_only:
  assumes "listAllFiles_loop s3 pfx token files = Some y"
  shows "case y of
           Inl e \<Rightarrow> \<exists>pages. serves_then_fails s3 pfx None token pages e
         | Inr keys \<Rightarrow> \<exists>pages. serves s3 pfx None token pages
                               \<and> keys = files @ concat (map page_keys pages)"
proof (rule listAllFiles_loop.raw_induct
    [where P = "\<lambda>s3 pfx token files y.
         case y of
           Inl e \<Rightarrow> \<exists>pages. serves_then_fails s3 pfx None token pages e
         | Inr keys \<Rightarrow> \<exists>pages. serves s3 pfx None token pages
                               \<and> keys = files @ concat (map page_keys pages)",
     OF _ assms], goal_cases)
  case (1 loop s3 pfx token files y)
  show ?case
  proof (cases "send_list s3 \<lparr>Prefix = pfx, Delimiter = None, ContinuationToken = token\<rparr>")
    case (Inl e)
    then have "y = Inl e"
      using 1(2) by simp
    moreover have "\<exists>pages. serves_then_fails s3 pfx None token pages e"
      using Inl by (intro exI [of _ "[]"]) simp
    ultimately show ?thesis
      by simp
  next
    case (Inr page)
    let ?files = "files @ page_keys page"
    have f: "(case Contents page of None \<Rightarrow> files | Some items \<Rightarrow> files @ items) = ?files"
      by (simp add: page_keys_def split: option.splits)
    show ?thesis
    proof (cases "truthy (next_token page)")
      case True
      then have "loop s3 pfx (next_token page) ?files = Some y"
        using 1(2) Inr f by simp
      note ih = 1(1) [OF this]
      show ?thesis
      proof (cases y)
        case (Inl e)
        then obtain pages where "serves_then_fails s3 pfx None (next_token page) pages e"
          using ih by auto
        then have "serves_then_fails s3 pfx None token (page # pages) e"
          using Inr True by simp
        then have "\<exists>pages. serves_then_fails s3 pfx None token pages e"
          by (rule exI)
        then show ?thesis
          using Inl by simp
      next
        case (Inr keys)
        then obtain pages where p: "serves s3 pfx None (next_token page) pages"
          "keys = ?files @ concat (map page_keys pages)"
          using ih by auto
        have "serves s3 pfx None token (page # pages)"
          using p(1) True \<open>send_list s3 _ = Inr page\<close> by simp
        moreover have "keys = files @ concat (map page_keys (page # pages))"
          using p(2) by simp
        ultimately have "\<exists>pages. serves s3 pfx None token pages
                           \<and> keys = files @ concat (map page_keys pages)"
          by blast
        then show ?thesis
          using Inr by simp
      qed
    next
      case False
      then have "y = Inr ?files"
        using 1(2) Inr f by simp
      moreover have "serves s3 pfx None token [page]
                     \<and> ?files = files @ concat (map page_keys [page])"
        using Inr False by simp
      then have "\<exists>pages. serves s3 pfx None token pages
                      \<and> ?files = files @ concat (map page_keys pages)"
        by (rule exI)
      ultimately show ?thesis
        by simp
    qed
  qed
qed


lemma listFolders_loop_returns:
  "serves s3 pfx (Some ''/'') token pages \<Longrightarrow>
   listFolders_loop s3 pfx token folders = Some (Inr (fold set_add (concat (map page_prefixes pages)) folders))"
proof (induction pages arbitrary: token folders)
  case Nil
  then show ?case by simp
next
  case (Cons page pages)
  have s: "send_list s3 \<lparr>Prefix = pfx, Delimiter = Some ''/'', ContinuationToken = token\<rparr> = Inr page"
    using Cons.prems by simp
  have f: "(case CommonPrefixes page of None \<Rightarrow> folders
            | Some items \<Rightarrow> fold set_add items folders)
           = fold set_add (page_prefixes page) folders"
    by (simp add: page_prefixes_def split: option.splits)
  show ?case
  proof (cases "truthy (next_token page)")
    case True
    then have "serves s3 pfx (Some ''/'') (next_token page) pages"
      using Cons.prems by simp
    from Cons.IH [OF this] show ?thesis
      using s True by (subst listFolders_loop.simps) (simp add: f)
  next
    case False
    then have "pages = []"
      using Cons.prems by simp
    then show ?thesis
      using s False by (subst listFolders_loop.simps) (simp add: f)
  qed
qed

lemma listFolders_loop_throws:
  "serves_then_fails s3 pfx (Some ''/'') token pages e \<Longrightarrow>
   listFolders_loop s3 pfx token folders = Some (Inl e)"
proof (induction pages arbitrary: token folders)
  case Nil
  then show ?case
    by (subst listFolders_loop.simps) simp
next
  case (Cons page pages)
  then show ?case
    by (subst listFolders_loop.simps) simp
qed

lemma listFolders_loop_only:
  assumes "listFolders_loop s3 pfx token folders = Some y"
  shows "case y of
           Inl e \<Rightarrow> \<exists>pages. serves_then_fails s3 pfx (Some ''/'') token pages e
         | Inr keys \<Rightarrow> \<exists>pages. serves s3 pfx (Some ''/'') token pages
                               \<and> keys = fold set_add (concat (map page_prefixes pages)) folders"
proof (rule listFolders_loop.raw_induct
    [where P = "\<lambda>s3 pfx token folders y.
         case y of
           Inl e \<Rightarrow> \<exists>pages. serves_then_fails s3 pfx (Some ''/'') token pages e
         | Inr keys \<Rightarrow> \<exists>pages. serves s3 pfx (Some ''/'') token pages
                               \<and> keys = fold set_add (concat (map page_prefixes pages)) folders",
     OF _ assms], goal_cases)
  case (1 loop s3 pfx token folders y)
  show ?case
  proof (cases "send_list s3 \<lparr>Prefix = pfx, Delimiter = Some ''/'', ContinuationToken = token\<rparr>")
    case (Inl e)
    then have "y = Inl e"
      using 1(2) by simp
    moreover have "\<exists>pages. serves_then_fails s3 pfx (Some ''/'') token pages e"
      using Inl by (intro exI [of _ "[]"]) simp
    ultimately show ?thesis
      by simp
  next
    case (Inr page)
    let ?files = "fold set_add (page_prefixes page) folders"
    have f: "(case CommonPrefixes page of None \<Rightarrow> folders
               | Some items \<Rightarrow> fold set_add items folders) = ?files"
      by (simp add: page_prefixes_def split: option.splits)
    show ?thesis
    proof (cases "truthy (next_token page)")
      case True
      then have "loop s3 pfx (next_token page) ?files = Some y"
        using 1(2) Inr f by simp
      note ih = 1(1) [OF this]
      show ?thesis
      proof (cases y)
        case (Inl e)
        then obtain pages where "serves_then_fails s3 pfx (Some ''/'') (next_token page) pages e"
          using ih by auto
        then have "serves_then_fails s3 pfx (Some ''/'') token (page # pages) e"
          using Inr True by simp
        then have "\<exists>pages. serves_then_fails s3 pfx (Some ''/'') token pages e"
          by (rule exI)
        then show ?thesis
          using Inl by simp
      next
        case (Inr keys)
        then obtain pages where p: "serves s3 pfx (Some ''/'') (next_token page) pages"
          "keys = fold set_add (concat (map page_prefixes pages)) ?files"
          using ih by auto
        have "serves s3 pfx (Some ''/'') token (page # pages)"
          using p(1) True \<open>send_list s3 _ = Inr page\<close> by simp
        moreover have "keys = fold set_add (concat (map page_prefixes (page # pages))) folders"
          using p(2) by simp
        ultimately have "\<exists>pages. serves s3 pfx (Some ''/'') token pages
                           \<and> keys = fold set_add (concat (map page_prefixes pages)) folders"
          by blast
        then show ?thesis
          using Inr by simp
      qed
    next
      case False
      then have "y = Inr ?files"
        using 1(2) Inr f by simp
      moreover have "serves s3 pfx (Some ''/'') token [page]
                     \<and> ?files = fold set_add (concat (map page_prefixes [page])) folders"
        using Inr False by simp
      then have "\<exists>pages. serves s3 pfx (Some ''/'') token pages
                      \<and> ?files = fold set_add (concat (map page_prefixes pages)) folders"
        by (rule exI)
      ultimately show ?thesis
        by simp
    qed
  qed
qed


section \<open>Fetch and loop lemmas\<close>

lemma downloadFile_console:
  "downloadFile s3 fsys key localPath w = (result, w') \<Longrightarrow>
   \<exists>line. console w' = console w @ [line] \<and> line_key line = key
          \<and> line_outcome line = result"
  by (auto simp: downloadFile_def Let_def split: if_splits sum.splits prod.splits option.splits)

lemma and_then_Inr:
  "and_then r f = Some (Inr st', w') \<Longrightarrow>
   \<exists>st1 w1. r = Some (Inr st1, w1) \<and> f st1 w1 = Some (Inr st', w')"
  by (auto simp: and_then_def split: option.splits sum.splits prod.splits)

lemma and_then_Inl:
  "and_then r f = Some (Inl e, w') \<Longrightarrow>
   r = Some (Inl e, w') \<or> (\<exists>st1 w1. r = Some (Inr st1, w1) \<and> f st1 w1 = Some (Inl e, w'))"
  by (auto simp: and_then_def split: option.splits sum.splits prod.splits)

text \<open>
  A relation between the counters and world before and after that every pass of a loop
  body keeps, and that is reflexive and transitive, holds across the loop.
\<close>

lemma for_each_keeps:
  assumes step: "\<And>x st w st' w'. x \<in> set xs \<Longrightarrow> f x st w = Some (Inr st', w') \<Longrightarrow>
                  R (st, w) (st', w')"
    and refl: "\<And>s. R s s"
    and trans: "\<And>a b c. R a b \<Longrightarrow> R b c \<Longrightarrow> R a c"
    and run: "for_each f xs st w = Some (Inr st', w')"
  shows "R (st, w) (st', w')"
  using step run
proof (induction xs arbitrary: st w)
  case Nil
  then show ?case by (simp add: refl)
next
  case (Cons x xs)
  from Cons.prems(2) obtain st1 w1 where
    1: "f x st w = Some (Inr st1, w1)" and 2: "for_each f xs st1 w1 = Some (Inr st', w')"
    by (auto dest: and_then_Inr)
  have "R (st, w) (st1, w1)"
    using Cons.prems(1) [of x, OF _ 1] by simp
  moreover have "R (st1, w1) (st', w')"
  proof (rule Cons.IH [OF _ 2])
    fix y st w st' w'
    assume "y \<in> set xs" "f y st w = Some (Inr st', w')"
    then show "R (st, w) (st', w')"
      using Cons.prems(1) [of y st w st' w'] by simp
  qed
  ultimately show ?case
    by (rule trans)
qed

text \<open>The same for a relation between the worlds, whichever way the loop is left.\<close>

lemma for_each_keeps_world:
  assumes step: "\<And>x st w r w'. x \<in> set xs \<Longrightarrow> f x st w = Some (r, w') \<Longrightarrow> R w w'"
    and refl: "\<And>s. R s s"
    and trans: "\<And>a b c. R a b \<Longrightarrow> R b c \<Longrightarrow> R a c"
    and run: "for_each f xs st w = Some (r, w')"
  shows "R w w'"
  using step run
proof (induction xs arbitrary: st w)
  case Nil
  then show ?case by (simp add: refl)
next
  case (Cons x xs)
  show ?case
  proof (cases "f x st w")
    case None
    then show ?thesis
      using Cons.prems(2) by (simp add: and_then_def)
  next
    case (Some a)
    then obtain r1 w1 where 1: "f x st w = Some (r1, w1)"
      by (cases a) auto
    have a: "R w w1"
      using Cons.prems(1) [of x, OF _ 1] by simp
    show ?thesis
    proof (cases r1)
      case (Inl e)
      then have "w' = w1"
        using Cons.prems(2) 1 by (simp add: and_then_def)
      then show ?thesis
        using a by simp
    next
      case (Inr st1)
      then have "for_each f xs st1 w1 = Some (r, w')"
        using Cons.prems(2) 1 by (simp add: and_then_def)
      have "R w1 w'"
      proof (rule Cons.IH [OF _ \<open>for_each f xs st1 w1 = Some (r, w')\<close>])
        fix y st w r w'
        assume "y \<in> set xs" "f y st w = Some (r, w')"
        then show "R w w'"
          using Cons.prems(1) [of y st w r w'] by simp
      qed
      with a show ?thesis
        by (rule trans)
    qed
  qed
qed

lemma download_and_count_eq:
  "download_and_count s3 fsys cfg fileKey st w =
     Some (Inr (tally (fst (downloadFile s3 fsys fileKey (local_path cfg fileKey) w)) st),
           snd (downloadFile s3 fsys fileKey (local_path cfg fileKey) w))"
  by (simp add: download_and_count_def Let_def split: prod.splits)

text \<open>The loop over fetched keys always completes, and its console lists the keys in order.\<close>

lemma for_each_download_completes:
  "\<exists>st' w' lines.
     for_each (\<lambda>x. download_and_count s3 fsys cfg (g x)) xs st w = Some (Inr st', w')
     \<and> console w' = console w @ lines \<and> map line_key lines = map g xs
     \<and> totalDownloaded st' = totalDownloaded st + count_outcome Downloaded lines
     \<and> totalSkipped st' = totalSkipped st + count_outcome Skipped lines
     \<and> totalFailed st' = totalFailed st + count_outcome Failed lines
     \<and> totalFolders st' = totalFolders st
     \<and> totalRecordFolders st' = totalRecordFolders st"
proof (induction xs arbitrary: st w)
  case Nil
  show ?case by (simp add: count_outcome_def)
next
  case (Cons x xs)
  obtain result w1 where d: "downloadFile s3 fsys (g x) (local_path cfg (g x)) w = (result, w1)"
    by (cases "downloadFile s3 fsys (g x) (local_path cfg (g x)) w") auto
  from downloadFile_console [OF d] obtain line where
    l: "console w1 = console w @ [line]" "line_key line = g x" "line_outcome line = result"
    by auto
  from Cons.IH [of "tally result st" w1] obtain st' w' lines where
    r: "for_each (\<lambda>x. download_and_count s3 fsys cfg (g x)) xs (tally result st) w1
        = Some (Inr st', w')"
    "console w' = console w1 @ lines" "map line_key lines = map g xs"
    "totalDownloaded st' = totalDownloaded (tally result st) + count_outcome Downloaded lines"
    "totalSkipped st' = totalSkipped (tally result st) + count_outcome Skipped lines"
    "totalFailed st' = totalFailed (tally result st) + count_outcome Failed lines"
    "totalFolders st' = totalFolders (tally result st)"
    "totalRecordFolders st' = totalRecordFolders (tally result st)"
    by blast
  have "for_each (\<lambda>x. download_and_count s3 fsys cfg (g x)) (x # xs) st w = Some (Inr st', w')"
    using d r(1) by (simp add: download_and_count_eq and_then_def)
  moreover have "console w' = console w @ (line # lines)"
    using l(1) r(2) by simp
  moreover have "map line_key (line # lines) = map g (x # xs)"
    using l(2) r(3) by simp
  moreover have "totalDownloaded st' = totalDownloaded st + count_outcome Downloaded (line # lines)"
    "totalSkipped st' = totalSkipped st + count_outcome Skipped (line # lines)"
    "totalFailed st' = totalFailed st + count_outcome Failed (line # lines)"
    "totalFolders st' = totalFolders st" "totalRecordFolders st' = totalRecordFolders st"
    using l(3) r(4-8) by (cases result; simp add: tally_def count_outcome_def)+
  ultimately show ?case
    by blast
qed

lemma count_outcome_total:
  "count_outcome Downloaded lines + count_outcome Skipped lines + count_outcome Failed lines
   = length lines"
proof (induction lines)
  case Nil
  show ?case by (simp add: count_outcome_def)
next
  case (Cons line lines)
  then show ?case
    by (cases "line_outcome line") (simp_all add: count_outcome_def)
qed


section \<open>Run lemmas\<close>

lemma accounted_refl: "accounted s s"
  by (simp add: accounted_def count_outcome_def)

lemma accounted_trans: "accounted a b \<Longrightarrow> accounted b c \<Longrightarrow> accounted a c"
proof -
  assume "accounted a b" and "accounted b c"
  then obtain l1 l2 where
    1: "console (snd b) = console (snd a) @ l1"
    "totalDownloaded (fst b) = totalDownloaded (fst a) + count_outcome Downloaded l1"
    "totalSkipped (fst b) = totalSkipped (fst a) + count_outcome Skipped l1"
    "totalFailed (fst b) = totalFailed (fst a) + count_outcome Failed l1"
    "totalFolders (fst a) \<le> totalFolders (fst b)"
    "totalRecordFolders (fst a) \<le> totalRecordFolders (fst b)"
    and 2: "console (snd c) = console (snd b) @ l2"
    "totalDownloaded (fst c) = totalDownloaded (fst b) + count_outcome Downloaded l2"
    "totalSkipped (fst c) = totalSkipped (fst b) + count_outcome Skipped l2"
    "totalFailed (fst c) = totalFailed (fst b) + count_outcome Failed l2"
    "totalFolders (fst b) \<le> totalFolders (fst c)"
    "totalRecordFolders (fst b) \<le> totalRecordFolders (fst c)"
    unfolding accounted_def by blast
  have "console (snd c) = console (snd a) @ (l1 @ l2)"
    using 1(1) 2(1) by simp
  moreover have "count_outcome r (l1 @ l2) = count_outcome r l1 + count_outcome r l2" for r
    by (simp add: count_outcome_def)
  ultimately show "accounted a c"
    unfolding accounted_def using 1(2-6) 2(2-6)
    by (intro exI [of _ "l1 @ l2"]) simp
qed

lemma download_and_count_accounted:
  "download_and_count s3 fsys cfg fileKey st w = Some (Inr st', w') \<Longrightarrow>
   accounted (st, w) (st', w')"
proof -
  assume a: "download_and_count s3 fsys cfg fileKey st w = Some (Inr st', w')"
  obtain result w1 where
    d: "downloadFile s3 fsys fileKey (local_path cfg fileKey) w = (result, w1)"
    by (cases "downloadFile s3 fsys fileKey (local_path cfg fileKey) w") auto
  from downloadFile_console [OF d] obtain line where
    l: "console w1 = console w @ [line]" "line_outcome line = result"
    by auto
  have "st' = tally result st" "w' = w1"
    using a d by (simp_all add: download_and_count_eq)
  then show ?thesis
    unfolding accounted_def using l
    by (intro exI [of _ "[line]"]) (cases result; simp add: tally_def count_outcome_def)
qed

lemma target_folder_body_accounted:
  "target_folder_body s3 fsys cfg subFolder targetFolder st w = Some (Inr st', w') \<Longrightarrow>
   accounted (st, w) (st', w')"
proof -
  assume a: "target_folder_body s3 fsys cfg subFolder targetFolder st w = Some (Inr st', w')"
  then obtain files where f: "listAllFiles s3 (subFolder @ targetFolder) = Some (Inr files)"
    by (auto simp: target_folder_body_def split: option.splits sum.splits)
  let ?actual = "filter (\<lambda>key. \<not> endsWith key ''/'') files"
  show ?thesis
  proof (cases "?actual = []")
    case True
    then have "st' = st" "w' = w"
      using a f by (simp_all add: target_folder_body_def)
    then show ?thesis
      by (simp add: accounted_refl)
  next
    case False
    then have "for_each (download_and_count s3 fsys cfg) ?actual st w = Some (Inr st', w')"
      using a f by (simp add: target_folder_body_def)
    then show ?thesis
      by (rule for_each_keeps [rotated 3])
        (auto intro: download_and_count_accounted accounted_refl accounted_trans)
  qed
qed

lemma record_folder_body_accounted:
  "record_folder_body s3 fsys cfg subFolder st w = Some (Inr st', w') \<Longrightarrow>
   accounted (st, w) (st', w')"
proof -
  assume a: "record_folder_body s3 fsys cfg subFolder st w = Some (Inr st', w')"
  let ?st = "st\<lparr>totalRecordFolders := totalRecordFolders st + 1\<rparr>"
  from a obtain st1 w1 where
    1: "for_each (\<lambda>jsonFile. download_and_count s3 fsys cfg (subFolder @ jsonFile))
          (JSON_FILES_TO_DOWNLOAD cfg) ?st w = Some (Inr st1, w1)"
    and 2: "for_each (target_folder_body s3 fsys cfg subFolder) (FOLDERS_TO_DOWNLOAD cfg) st1 w1
            = Some (Inr st', w')"
    unfolding record_folder_body_def by (auto dest: and_then_Inr)
  have "accounted (st, w) (?st, w)"
    by (simp add: accounted_def count_outcome_def)
  moreover have "accounted (?st, w) (st1, w1)"
    using 1 by (rule for_each_keeps [rotated 3])
      (auto intro: download_and_count_accounted accounted_refl accounted_trans)
  moreover have "accounted (st1, w1) (st', w')"
    using 2 by (rule for_each_keeps [rotated 3])
      (auto intro: target_folder_body_accounted accounted_refl accounted_trans)
  ultimately show ?thesis
    by (blast intro: accounted_trans)
qed

lemma main_folder_body_accounted:
  "main_folder_body s3 fsys cfg mainFolder st w = Some (Inr st', w') \<Longrightarrow>
   accounted (st, w) (st', w')"
proof -
  assume a: "main_folder_body s3 fsys cfg mainFolder st w = Some (Inr st', w')"
  then obtain subFolders where
    f: "listFolders s3 (S3_BASE_PREFIX cfg @ mainFolder @ ''/'') = Some (Inr subFolders)"
    by (auto simp: main_folder_body_def split: option.splits sum.splits)
  show ?thesis
  proof (cases "subFolders = []")
    case True
    then have "st' = st" "w' = w"
      using a f by (simp_all add: main_folder_body_def)
    then show ?thesis
      by (simp add: accounted_refl)
  next
    case False
    then obtain st1 where
      1: "for_each (record_folder_body s3 fsys cfg) subFolders st w = Some (Inr st1, w')"
      and 2: "st' = st1\<lparr>totalFolders := totalFolders st1 + 1\<rparr>"
      using a f by (auto simp: main_folder_body_def dest!: and_then_Inr)
    have "accounted (st, w) (st1, w')"
      using 1 by (rule for_each_keeps [rotated 3])
        (auto intro: record_folder_body_accounted accounted_refl accounted_trans)
    moreover have "accounted (st1, w') (st', w')"
      using 2 by (simp add: accounted_def count_outcome_def)
    ultimately show ?thesis
      by (rule accounted_trans)
  qed
qed

lemma main_folders_accounted:
  "for_each (main_folder_body s3 fsys cfg) folders st w = Some (Inr st', w') \<Longrightarrow>
   accounted (st, w) (st', w')"
  by (rule for_each_keeps [rotated 3])
    (auto intro: main_folder_body_accounted accounted_refl accounted_trans)

lemma accounted_counters_le: "accounted (st, w) (st', w') \<Longrightarrow> counters_le st st'"
  by (auto simp: accounted_def counters_le_def)


lemma for_each_adds:
  assumes step: "\<And>x st w st' w'. x \<in> set xs \<Longrightarrow> f x st w = Some (Inr st', w') \<Longrightarrow>
                  m st' = (m st :: nat) + k x"
    and run: "for_each f xs st w = Some (Inr st', w')"
  shows "m st' = m st + sum_list (map k xs)"
  using step run
proof (induction xs arbitrary: st w)
  case Nil
  then show ?case by simp
next
  case (Cons x xs)
  from Cons.prems(2) obtain st1 w1 where
    1: "f x st w = Some (Inr st1, w1)" and 2: "for_each f xs st1 w1 = Some (Inr st', w')"
    by (auto dest: and_then_Inr)
  have "m st1 = m st + k x"
    using Cons.prems(1) [of x, OF _ 1] by simp
  moreover have "m st' = m st1 + sum_list (map k xs)"
  proof (rule Cons.IH [OF _ 2])
    fix y st w st' w'
    assume "y \<in> set xs" "f y st w = Some (Inr st', w')"
    then show "m st' = m st + k y"
      using Cons.prems(1) [of y st w st' w'] by simp
  qed
  ultimately show ?case
    by simp
qed

lemma download_and_count_folders:
  "download_and_count s3 fsys cfg fileKey st w = Some (Inr st', w') \<Longrightarrow>
   totalFolders st' = totalFolders st \<and> totalRecordFolders st' = totalRecordFolders st"
  by (auto simp: download_and_count_eq tally_def)

lemma target_folder_body_folders:
  assumes "target_folder_body s3 fsys cfg subFolder targetFolder st w = Some (Inr st', w')"
  shows "totalFolders st' = totalFolders st \<and> totalRecordFolders st' = totalRecordFolders st"
proof -
  obtain files where f: "listAllFiles s3 (subFolder @ targetFolder) = Some (Inr files)"
    using assms by (auto simp: target_folder_body_def split: option.splits sum.splits)
  let ?actual = "filter (\<lambda>key. \<not> endsWith key ''/'') files"
  show ?thesis
  proof (cases "?actual = []")
    case True
    then show ?thesis
      using assms f by (simp add: target_folder_body_def)
  next
    case False
    then have r: "for_each (download_and_count s3 fsys cfg) ?actual st w = Some (Inr st', w')"
      using assms f by (simp add: target_folder_body_def)
    have "totalFolders st' = totalFolders st + sum_list (map (\<lambda>x. 0) ?actual)"
      by (rule for_each_adds [OF _ r]) (simp add: download_and_count_folders)
    moreover have "totalRecordFolders st'
                   = totalRecordFolders st + sum_list (map (\<lambda>x. 0) ?actual)"
      by (rule for_each_adds [OF _ r]) (simp add: download_and_count_folders)
    ultimately show ?thesis
      by simp
  qed
qed

lemma record_folder_body_folders:
  assumes "record_folder_body s3 fsys cfg subFolder st w = Some (Inr st', w')"
  shows "totalFolders st' = totalFolders st
         \<and> totalRecordFolders st' = totalRecordFolders st + 1"
proof -
  let ?st = "st\<lparr>totalRecordFolders := totalRecordFolders st + 1\<rparr>"
  from assms obtain st1 w1 where
    1: "for_each (\<lambda>jsonFile. download_and_count s3 fsys cfg (subFolder @ jsonFile))
          (JSON_FILES_TO_DOWNLOAD cfg) ?st w = Some (Inr st1, w1)"
    and 2: "for_each (target_folder_body s3 fsys cfg subFolder) (FOLDERS_TO_DOWNLOAD cfg) st1 w1
            = Some (Inr st', w')"
    unfolding record_folder_body_def by (auto dest: and_then_Inr)
  have "totalFolders st1 = totalFolders ?st
          + sum_list (map (\<lambda>x. 0) (JSON_FILES_TO_DOWNLOAD cfg))"
    by (rule for_each_adds [OF _ 1]) (simp add: download_and_count_folders)
  moreover have "totalRecordFolders st1 = totalRecordFolders ?st
          + sum_list (map (\<lambda>x. 0) (JSON_FILES_TO_DOWNLOAD cfg))"
    by (rule for_each_adds [OF _ 1]) (simp add: download_and_count_folders)
  moreover have "totalFolders st' = totalFolders st1
          + sum_list (map (\<lambda>x. 0) (FOLDERS_TO_DOWNLOAD cfg))"
    by (rule for_each_adds [OF _ 2]) (simp add: target_folder_body_folders)
  moreover have "totalRecordFolders st' = totalRecordFolders st1
          + sum_list (map (\<lambda>x. 0) (FOLDERS_TO_DOWNLOAD cfg))"
    by (rule for_each_adds [OF _ 2]) (simp add: target_folder_body_folders)
  ultimately show ?thesis
    by simp
qed

lemma main_folder_body_folders:
  assumes "main_folder_body s3 fsys cfg mainFolder st w = Some (Inr st', w')"
  shows "totalFolders st'
           = totalFolders st + (if record_folders s3 cfg mainFolder = [] then 0 else 1)
         \<and> totalRecordFolders st'
             = totalRecordFolders st + length (record_folders s3 cfg mainFolder)"
proof -
  obtain subFolders where
    f: "listFolders s3 (S3_BASE_PREFIX cfg @ mainFolder @ ''/'') = Some (Inr subFolders)"
    using assms by (auto simp: main_folder_body_def split: option.splits sum.splits)
  then have rf: "record_folders s3 cfg mainFolder = subFolders"
    by (simp add: record_folders_def scan_prefix_def)
  show ?thesis
  proof (cases "subFolders = []")
    case True
    then show ?thesis
      using assms f rf by (simp add: main_folder_body_def)
  next
    case False
    then obtain st1 where
      1: "for_each (record_folder_body s3 fsys cfg) subFolders st w = Some (Inr st1, w')"
      and 2: "st' = st1\<lparr>totalFolders := totalFolders st1 + 1\<rparr>"
      using assms f by (auto simp: main_folder_body_def dest!: and_then_Inr)
    have "totalFolders st1 = totalFolders st + sum_list (map (\<lambda>x. 0) subFolders)"
      by (rule for_each_adds [OF _ 1]) (simp add: record_folder_body_folders)
    moreover have "totalRecordFolders st1
                   = totalRecordFolders st + sum_list (map (\<lambda>x. 1) subFolders)"
      by (rule for_each_adds [OF _ 1]) (simp add: record_folder_body_folders)
    moreover have "sum_list (map (\<lambda>x. 1) subFolders) = length subFolders"
      by (induction subFolders) auto
    ultimately show ?thesis
      using 2 rf False by simp
  qed
qed

lemma sum_list_indicator:
  "sum_list (map (\<lambda>x. if P x then 0 else 1) xs) = length (filter (\<lambda>x. \<not> P x) xs)"
  by (induction xs) auto


lemma for_each_completes:
  assumes "\<And>x st w. x \<in> set xs \<Longrightarrow> \<exists>st' w'. f x st w = Some (Inr st', w')"
  shows "\<exists>st' w'. for_each f xs st w = Some (Inr st', w')"
  using assms
proof (induction xs arbitrary: st w)
  case Nil
  show ?case by simp
next
  case (Cons x xs)
  obtain st1 w1 where 1: "f x st w = Some (Inr st1, w1)"
    using Cons.prems [of x st w] by auto
  have "\<exists>st' w'. for_each f xs st1 w1 = Some (Inr st', w')"
  proof (rule Cons.IH)
    fix y st w
    assume "y \<in> set xs"
    then show "\<exists>st' w'. f y st w = Some (Inr st', w')"
      using Cons.prems [of y st w] by simp
  qed
  then show ?case
    using 1 by (simp add: and_then_def)
qed

lemma for_each_Inl:
  "for_each f xs st w = Some (Inl e, w') \<Longrightarrow>
   \<exists>x \<in> set xs. \<exists>st1 w1. f x st1 w1 = Some (Inl e, w')"
proof (induction xs arbitrary: st w)
  case Nil
  then show ?case by simp
next
  case (Cons x xs)
  from Cons.prems have "f x st w = Some (Inl e, w')
      \<or> (\<exists>st1 w1. f x st w = Some (Inr st1, w1) \<and> for_each f xs st1 w1 = Some (Inl e, w'))"
    by (auto dest: and_then_Inl)
  then show ?case
    using Cons.IH by fastforce
qed

lemma download_and_count_completes:
  "\<exists>st' w'. download_and_count s3 fsys cfg fileKey st w = Some (Inr st', w')"
  by (simp add: download_and_count_eq)

lemma target_folder_body_completes:
  assumes "listAllFiles s3 (subFolder @ targetFolder) = Some (Inr files)"
  shows "\<exists>st' w'. target_folder_body s3 fsys cfg subFolder targetFolder st w
                     = Some (Inr st', w')"
  using assms
    for_each_completes [of "filter (\<lambda>key. \<not> endsWith key ''/'') files"
      "download_and_count s3 fsys cfg" st w]
  by (auto simp: target_folder_body_def Let_def download_and_count_completes)

lemma record_folder_body_completes:
  assumes "\<And>targetFolder. targetFolder \<in> set (FOLDERS_TO_DOWNLOAD cfg) \<Longrightarrow>
             \<exists>files. listAllFiles s3 (subFolder @ targetFolder) = Some (Inr files)"
  shows "\<exists>st' w'. record_folder_body s3 fsys cfg subFolder st w = Some (Inr st', w')"
proof -
  obtain st1 w1 where
    1: "for_each (\<lambda>jsonFile. download_and_count s3 fsys cfg (subFolder @ jsonFile))
          (JSON_FILES_TO_DOWNLOAD cfg)
          (st\<lparr>totalRecordFolders := totalRecordFolders st + 1\<rparr>) w = Some (Inr st1, w1)"
    using for_each_completes
      [of "JSON_FILES_TO_DOWNLOAD cfg"
        "\<lambda>jsonFile. download_and_count s3 fsys cfg (subFolder @ jsonFile)"]
    by (metis download_and_count_completes)
  have "\<exists>st' w'. for_each (target_folder_body s3 fsys cfg subFolder)
                    (FOLDERS_TO_DOWNLOAD cfg) st1 w1 = Some (Inr st', w')"
  proof (rule for_each_completes)
    fix t st w
    assume "t \<in> set (FOLDERS_TO_DOWNLOAD cfg)"
    then obtain files where "listAllFiles s3 (subFolder @ t) = Some (Inr files)"
      using assms by blast
    then show "\<exists>st' w'. target_folder_body s3 fsys cfg subFolder t st w = Some (Inr st', w')"
      by (rule target_folder_body_completes)
  qed
  then show ?thesis
    using 1 by (simp add: record_folder_body_def and_then_def)
qed

lemma main_folder_body_completes:
  assumes f: "listFolders s3 (scan_prefix cfg mainFolder) = Some (Inr subFolders)"
    and a: "\<And>subFolder targetFolder.
              subFolder \<in> set subFolders \<Longrightarrow> targetFolder \<in> set (FOLDERS_TO_DOWNLOAD cfg) \<Longrightarrow>
              \<exists>files. listAllFiles s3 (subFolder @ targetFolder) = Some (Inr files)"
  shows "\<exists>st' w'. main_folder_body s3 fsys cfg mainFolder st w = Some (Inr st', w')"
proof -
  have "\<exists>st' w'. for_each (record_folder_body s3 fsys cfg) subFolders st w
                    = Some (Inr st', w')"
  proof (rule for_each_completes)
    fix sub st w
    assume "sub \<in> set subFolders"
    then show "\<exists>st' w'. record_folder_body s3 fsys cfg sub st w = Some (Inr st', w')"
      using a by (intro record_folder_body_completes) blast
  qed
  then show ?thesis
    using f by (auto simp: main_folder_body_def scan_prefix_def and_then_def)
qed

lemma target_folder_body_Inl:
  assumes "target_folder_body s3 fsys cfg subFolder targetFolder st w = Some (Inl e, w')"
  shows "listAllFiles s3 (subFolder @ targetFolder) = Some (Inl e)"
proof (cases "listAllFiles s3 (subFolder @ targetFolder)")
  case None
  then show ?thesis
    using assms by (simp add: target_folder_body_def)
next
  case (Some r)
  show ?thesis
  proof (cases r)
    case (Inl e')
    then show ?thesis
      using assms Some by (simp add: target_folder_body_def)
  next
    case (Inr files)
    let ?actual = "filter (\<lambda>key. \<not> endsWith key ''/'') files"
    have "for_each (download_and_count s3 fsys cfg) ?actual st w = Some (Inl e, w')"
      using assms Some Inr by (simp add: target_folder_body_def Let_def split: if_splits)
    from for_each_Inl [OF this] show ?thesis
      by (simp add: download_and_count_eq)
  qed
qed

lemma record_folder_body_Inl:
  assumes "record_folder_body s3 fsys cfg subFolder st w = Some (Inl e, w')"
  shows "\<exists>pfx. listAllFiles s3 pfx = Some (Inl e)"
proof -
  let ?json = "for_each (\<lambda>jsonFile. download_and_count s3 fsys cfg (subFolder @ jsonFile))
                 (JSON_FILES_TO_DOWNLOAD cfg)
                 (st\<lparr>totalRecordFolders := totalRecordFolders st + 1\<rparr>) w"
  from assms have "?json = Some (Inl e, w')
      \<or> (\<exists>st1 w1. for_each (target_folder_body s3 fsys cfg subFolder)
                      (FOLDERS_TO_DOWNLOAD cfg) st1 w1 = Some (Inl e, w'))"
    unfolding record_folder_body_def by (auto dest: and_then_Inl)
  then show ?thesis
  proof
    assume "?json = Some (Inl e, w')"
    from for_each_Inl [OF this] show ?thesis
      by (simp add: download_and_count_eq)
  next
    assume "\<exists>st1 w1. for_each (target_folder_body s3 fsys cfg subFolder)
                        (FOLDERS_TO_DOWNLOAD cfg) st1 w1 = Some (Inl e, w')"
    then show ?thesis
      by (blast dest: for_each_Inl target_folder_body_Inl)
  qed
qed

lemma main_folder_body_Inl:
  assumes "main_folder_body s3 fsys cfg mainFolder st w = Some (Inl e, w')"
  shows "(\<exists>pfx. listFolders s3 pfx = Some (Inl e)) \<or> (\<exists>pfx. listAllFiles s3 pfx = Some (Inl e))"
proof (cases "listFolders s3 (S3_BASE_PREFIX cfg @ mainFolder @ ''/'')")
  case None
  then show ?thesis
    using assms by (simp add: main_folder_body_def)
next
  case (Some r)
  show ?thesis
  proof (cases r)
    case (Inl e')
    then show ?thesis
      using assms Some by (auto simp: main_folder_body_def)
  next
    case (Inr subFolders)
    then have "\<exists>st1 w1. for_each (record_folder_body s3 fsys cfg) subFolders st1 w1
                          = Some (Inl e, w')"
      using assms Some
      by (auto simp: main_folder_body_def split: if_splits dest!: and_then_Inl)
    then show ?thesis
      by (blast dest: for_each_Inl record_folder_body_Inl)
  qed
qed


section \<open>The example bucket\<close>

lemma demo_listings:
  "listFolders demo_store ''base/folder1/'' = Some (Inr [''base/folder1/rec-1/''])"
  "listFolders demo_store ''base/folder2/'' = Some (Inr [])"
  "listAllFiles demo_store ''base/folder1/rec-1/photos/''
     = Some (Inr [''base/folder1/rec-1/photos/'', ''base/folder1/rec-1/photos/img1.jpg'',
                  ''base/folder1/rec-1/photos/img2.jpg''])"
  by (simp_all add: listFolders_def listFolders_loop.simps listAllFiles_def
      listAllFiles_loop.simps single_page_def next_token_def truthy_def set_add_def
      demo_store_def)

lemma demo_get:
  "send_get demo_store key =
     (if key = ''base/folder1/rec-1/metadata.json'' then Inr (Body ''{}'' True)
      else if key = ''base/folder1/rec-1/photos/img1.jpg'' then Inr (Body ''JPEG'' True)
      else if key = ''base/folder1/rec-1/photos/img2.jpg'' then Inr (Body ''JP'' False)
      else Inl (Error ''NoSuchKey''))"
  by (simp add: demo_store_def)

lemma demo_run:
  "\<exists>w'. downloadFromS3 demo_store posix_fs demo_config empty_world
          = Some (Inr \<lparr>totalDownloaded = 2, totalFailed = 2, totalFolders = 1,
                       totalRecordFolders = 1, totalSkipped = 0\<rparr>, w')
         \<and> console w'
             = [Error_line ''base/folder1/rec-1/config.json'' ''NoSuchKey'',
                Downloaded_line ''base/folder1/rec-1/metadata.json'',
                Downloaded_line ''base/folder1/rec-1/photos/img1.jpg'',
                Error_line ''base/folder1/rec-1/photos/img2.jpg'' ''aborted'']"
  by (simp add: downloadFromS3_def main_folder_body_def record_folder_body_def
      target_folder_body_def demo_listings endsWith_def suffix_def
      and_then_def download_and_count_def downloadFile_def posix_fs_def
      tree_exists_def tree_mkdir_def ancestors.simps tree_write_def is_dir_def is_file_def is_root_def
      local_path_def path_join_def path_normalize_def path_dirname_def demo_get
      demo_config_def empty_world_def tally_def initial_stats_def Let_def)


section \<open>Lemmas about the file system of files and directories\<close>

lemma path_dirname_not_Nil: "path_dirname p \<noteq> []"
proof (cases "p = []")
  case True
  then show ?thesis
    by (simp add: path_dirname_def)
next
  case False
  define r where
    "r = dropWhile (\<lambda>c. c \<noteq> CHR ''/'') (dropWhile (\<lambda>c. c = CHR ''/'') (rev (tl p)))"
  have "path_dirname p =
          (if r = [] then (if hd p = CHR ''/'' then ''/'' else ''.'')
           else if hd p = CHR ''/'' \<and> tl r = [] then ''//''
           else hd p # rev (tl r))"
    using False unfolding path_dirname_def r_def Let_def by (simp only: if_False)
  then show ?thesis
    by (simp split: if_splits)
qed

lemma ancestors_Nil: "p = [] \<or> is_root p \<Longrightarrow> ancestors p = []"
  by (simp add: ancestors.simps)

lemma ancestors_Cons:
  "p \<noteq> [] \<Longrightarrow> \<not> is_root p \<Longrightarrow> ancestors p = p # ancestors (path_dirname p)"
  by (subst ancestors.simps) simp

lemma ancestors_closed: "a \<in> set (ancestors d) \<Longrightarrow> set (ancestors a) \<subseteq> set (ancestors d)"
proof (induction d rule: ancestors.induct)
  case (1 d)
  show ?case
  proof (cases "d = [] \<or> is_root d")
    case True
    then show ?thesis
      using "1.prems" by (simp add: ancestors_Nil)
  next
    case False
    then have c: "ancestors d = d # ancestors (path_dirname d)"
      by (simp add: ancestors_Cons)
    show ?thesis
    proof (cases "a = d")
      case True
      then show ?thesis by simp
    next
      case False
      then have "a \<in> set (ancestors (path_dirname d))"
        using "1.prems" c by simp
      then have "set (ancestors a) \<subseteq> set (ancestors (path_dirname d))"
        using "1.IH" \<open>\<not> (d = [] \<or> is_root d)\<close> by blast
      then show ?thesis
        using c by auto
    qed
  qed
qed

lemma ancestors_not_root: "a \<in> set (ancestors d) \<Longrightarrow> a \<noteq> [] \<and> \<not> is_root a"
proof (induction d rule: ancestors.induct)
  case (1 d)
  show ?case
  proof (cases "d = [] \<or> is_root d")
    case True
    then show ?thesis
      using "1.prems" by (simp add: ancestors_Nil)
  next
    case False
    then have c: "ancestors d = d # ancestors (path_dirname d)"
      by (simp add: ancestors_Cons)
    show ?thesis
    proof (cases "a = d")
      case True
      then show ?thesis using False by simp
    next
      case False
      then have "a \<in> set (ancestors (path_dirname d))"
        using "1.prems" c by simp
      then show ?thesis
        using "1.IH" \<open>\<not> (d = [] \<or> is_root d)\<close> by blast
    qed
  qed
qed

lemma ancestors_self: "p \<noteq> [] \<Longrightarrow> \<not> is_root p \<Longrightarrow> p \<in> set (ancestors p)"
  by (simp add: ancestors_Cons)

lemma dirname_of_ancestor:
  assumes "a \<in> set (ancestors d)"
  shows "is_root (path_dirname a) \<or> path_dirname a \<in> set (ancestors d)"
proof (cases "is_root (path_dirname a)")
  case True
  then show ?thesis by simp
next
  case False
  have "path_dirname a \<in> set (ancestors (path_dirname a))"
    using False path_dirname_not_Nil by (rule ancestors_self [rotated])
  moreover have "ancestors a = a # ancestors (path_dirname a)"
    using ancestors_not_root [OF assms] by (simp add: ancestors_Cons)
  ultimately have "path_dirname a \<in> set (ancestors a)"
    by simp
  then show ?thesis
    using ancestors_closed [OF assms] by blast
qed

lemma mkdir_fold:
  "fold (\<lambda>a t'. if t' a = None then t'(a \<mapsto> Dir) else t') as t q
   = (if q \<in> set as \<and> t q = None then Some Dir else t q)"
  by (induction as arbitrary: t) auto

lemma tree_mkdir_failed:
  "tree_mkdir t d = (Some e, t') \<Longrightarrow> t' = t \<and> list_ex (is_file t) (ancestors d)"
  by (auto simp: tree_mkdir_def split: if_splits)

lemma tree_mkdir_made:
  "tree_mkdir t d = (None, t') \<Longrightarrow>
   \<not> list_ex (is_file t) (ancestors d)
   \<and> (\<forall>q. t' q = (if q \<in> set (ancestors d) \<and> t q = None then Some Dir else t q))"
  by (auto simp: tree_mkdir_def mkdir_fold split: if_splits)

lemma not_file_is_Dir: "\<not> is_file t a \<Longrightarrow> t a \<noteq> None \<Longrightarrow> t a = Some Dir"
  by (auto simp: is_file_def split: option.splits node.splits)

lemma tree_mkdir_le: "tree_mkdir t d = (err, t') \<Longrightarrow> t \<subseteq>\<^sub>m t'"
proof (cases err)
  case None
  assume "tree_mkdir t d = (err, t')"
  with None have "tree_mkdir t d = (None, t')"
    by simp
  from tree_mkdir_made [OF this]
  have "\<forall>q. t' q = (if q \<in> set (ancestors d) \<and> t q = None then Some Dir else t q)"
    by simp
  then show ?thesis
    by (auto simp: map_le_def)
next
  case (Some e)
  assume "tree_mkdir t d = (err, t')"
  with Some show ?thesis
    by (auto dest: tree_mkdir_failed)
qed

lemma is_dir_mono: "t \<subseteq>\<^sub>m t' \<Longrightarrow> is_dir t p \<Longrightarrow> is_dir t' p"
  by (auto simp: is_dir_def map_le_def dom_def)

lemma is_file_mono: "t \<subseteq>\<^sub>m t' \<Longrightarrow> is_file t p \<Longrightarrow> is_file t' p"
  by (auto simp: is_file_def map_le_def dom_def split: option.splits node.splits)

lemma tree_exists_mono: "t \<subseteq>\<^sub>m t' \<Longrightarrow> tree_exists t p \<Longrightarrow> tree_exists t' p"
  by (auto simp: tree_exists_def map_le_def dom_def)

lemma tree_mkdir_well_formed:
  assumes wf: "well_formed t" and m: "tree_mkdir t d = (err, t')"
  shows "well_formed t'"
proof (cases err)
  case (Some e)
  then show ?thesis
    using wf m by (auto dest: tree_mkdir_failed)
next
  case None
  then have "tree_mkdir t d = (None, t')"
    using m by simp
  from tree_mkdir_made [OF this]
  have nf: "\<not> list_ex (is_file t) (ancestors d)"
    and t': "\<And>q. t' q = (if q \<in> set (ancestors d) \<and> t q = None then Some Dir else t q)"
    by simp_all
  have le: "t \<subseteq>\<^sub>m t'"
    using m by (rule tree_mkdir_le)
  have made: "t' a = Some Dir" if "a \<in> set (ancestors d)" for a
  proof (cases "t a = None")
    case True
    then show ?thesis
      using that t' by simp
  next
    case False
    moreover have "\<not> is_file t a"
      using nf that by (auto simp: list_ex_iff)
    ultimately show ?thesis
      using t' [of a] by (simp add: not_file_is_Dir)
  qed
  show ?thesis
    unfolding well_formed_def
  proof (intro allI impI)
    fix q
    assume q: "t' q \<noteq> None"
    show "is_dir t' (path_dirname q)"
    proof (cases "t q = None")
      case False
      then have "is_dir t (path_dirname q)"
        using wf by (simp add: well_formed_def)
      then show ?thesis
        using le by (rule is_dir_mono [rotated])
    next
      case True
      then have "q \<in> set (ancestors d)"
        using q t' [of q] by (simp split: if_splits)
      from dirname_of_ancestor [OF this] show ?thesis
        using made by (auto simp: is_dir_def)
    qed
  qed
qed

lemma tree_mkdir_makes_dir:
  assumes "tree_mkdir t d = (None, t')" and "d \<noteq> []"
  shows "is_dir t' d"
proof (cases "d = [] \<or> is_root d")
  case True
  then show ?thesis
    using assms(2) by (auto simp: is_dir_def)
next
  case False
  then have d: "d \<in> set (ancestors d)"
    by (simp add: ancestors_self)
  from tree_mkdir_made [OF assms(1)]
  have nf: "\<not> list_ex (is_file t) (ancestors d)"
    and t': "\<And>q. t' q = (if q \<in> set (ancestors d) \<and> t q = None then Some Dir else t q)"
    by simp_all
  have "\<not> is_file t d"
    using nf d by (auto simp: list_ex_iff)
  then have "t' d = Some Dir"
    using t' [of d] d by (cases "t d = None") (simp_all add: not_file_is_Dir)
  then show ?thesis
    by (simp add: is_dir_def)
qed

lemma tree_write_cases:
  assumes "tree_write t p b = (err, t')"
  shows "(err \<noteq> None \<and> t' = t \<and> (is_dir t p \<or> \<not> is_dir t (path_dirname p)))
         \<or> (\<not> is_dir t p \<and> is_dir t (path_dirname p) \<and> t' = t(p \<mapsto> File (chunks b))
             \<and> (err = None \<longleftrightarrow> ends_ok b))"
  using assms by (auto simp: tree_write_def split: if_splits)

text \<open>A tree in which something exists under \<open>d\<close> has directories all the way above it.\<close>

lemma well_formed_above:
  assumes wf: "well_formed t"
  shows "t d \<noteq> None \<Longrightarrow> a \<in> set (ancestors (path_dirname d)) \<Longrightarrow> t a = Some Dir"
proof (induction d arbitrary: a rule: ancestors.induct)
  case (1 d)
  let ?dir = "path_dirname d"
  have nr: "?dir \<noteq> []" "\<not> is_root ?dir"
    using ancestors_not_root "1.prems"(2) ancestors_Nil [of ?dir]
    by auto
  have dd: "is_dir t ?dir"
    using wf "1.prems"(1) by (simp add: well_formed_def)
  then have td: "t ?dir = Some Dir"
    using nr by (simp add: is_dir_def)
  have dne: "\<not> (d = [] \<or> is_root d)"
  proof
    assume "d = [] \<or> is_root d"
    then have "is_root ?dir"
      by (auto simp: is_root_def path_dirname_def)
    then show False
      using nr by simp
  qed
  have c: "ancestors ?dir = ?dir # ancestors (path_dirname ?dir)"
    using nr by (simp add: ancestors_Cons)
  show ?case
  proof (cases "a = ?dir")
    case True
    then show ?thesis
      using td by simp
  next
    case False
    then have "a \<in> set (ancestors (path_dirname ?dir))"
      using "1.prems"(2) c by simp
    moreover have "t ?dir \<noteq> None"
      using td by simp
    ultimately show ?thesis
      using "1.IH" [OF dne] by blast
  qed
qed


section \<open>One fetch on the file system of files and directories\<close>

lemma downloadFile_posix_cases [consumes 1, case_names skipped get_failed mkdir_failed written]:
  assumes "downloadFile s3 posix_fs key p w = (result, w')"
  obtains "tree_exists (disk w) p" "result = Skipped" "disk w' = disk w"
  | e where "\<not> tree_exists (disk w) p" "send_get s3 key = Inl e" "result = Failed"
      "disk w' = disk w"
  | b e where "\<not> tree_exists (disk w) p" "send_get s3 key = Inr b"
      "\<not> tree_exists (disk w) (path_dirname p)"
      "tree_mkdir (disk w) (path_dirname p) = (Some e, disk w')" "result = Failed"
  | b t1 err where "\<not> tree_exists (disk w) p" "send_get s3 key = Inr b"
      "(tree_exists (disk w) (path_dirname p) \<and> t1 = disk w)
       \<or> (\<not> tree_exists (disk w) (path_dirname p)
           \<and> tree_mkdir (disk w) (path_dirname p) = (None, t1))"
      "tree_write t1 p b = (err, disk w')"
      "result = (if err = None then Downloaded else Failed)"
proof (cases "tree_exists (disk w) p")
  case True
  then have "result = Skipped" "disk w' = disk w"
    using assms by (auto simp: downloadFile_def posix_fs_def)
  with True show ?thesis
    by (rule that(1))
next
  case ne: False
  show ?thesis
  proof (cases "send_get s3 key")
    case (Inl e)
    then have "result = Failed" "disk w' = disk w"
      using assms ne by (auto simp: downloadFile_def posix_fs_def)
    with ne Inl show ?thesis
      by (rule that(2))
  next
    case (Inr b)
    show ?thesis
    proof (cases "tree_exists (disk w) (path_dirname p)")
      case True
      obtain err t2 where wr: "tree_write (disk w) p b = (err, t2)"
        by (cases "tree_write (disk w) p b") auto
      then have "disk w' = t2" "result = (if err = None then Downloaded else Failed)"
        using assms ne Inr True
        by (auto simp: downloadFile_def posix_fs_def Let_def split: option.splits)
      then show ?thesis
        using that(4) [of b "disk w" err] ne Inr True wr by simp
    next
      case False
      obtain merr t1 where mk: "tree_mkdir (disk w) (path_dirname p) = (merr, t1)"
        by (cases "tree_mkdir (disk w) (path_dirname p)") auto
      show ?thesis
      proof (cases merr)
        case (Some e)
        then have "disk w' = t1" "result = Failed"
          using assms ne Inr False mk
          by (auto simp: downloadFile_def posix_fs_def Let_def)
        then show ?thesis
          using that(3) [of b e] ne Inr False mk Some by simp
      next
        case None
        obtain err t2 where wr: "tree_write t1 p b = (err, t2)"
          by (cases "tree_write t1 p b") auto
        then have "disk w' = t2" "result = (if err = None then Downloaded else Failed)"
          using assms ne Inr False mk None
          by (auto simp: downloadFile_def posix_fs_def Let_def split: option.splits)
        then show ?thesis
          using that(4) [of b t1 err] ne Inr False mk None wr by simp
      qed
    qed
  qed
qed

lemma is_dir_exists: "is_dir t p \<Longrightarrow> tree_exists t p"
  by (auto simp: is_dir_def tree_exists_def)

lemma mkdir_keeps_absent:
  assumes "tree_mkdir t d = (None, t1)" and "t p = None"
  shows "t1 p = None \<or> t1 p = Some Dir"
  using tree_mkdir_made [OF assms(1)] assms(2) by simp

text \<open>The tree in which the write starts has nothing at the path, or a directory.\<close>

lemma before_write:
  assumes "\<not> tree_exists t p"
    and "(tree_exists t d \<and> t1 = t) \<or> (\<not> tree_exists t d \<and> tree_mkdir t d = (None, t1))"
  shows "t \<subseteq>\<^sub>m t1" and "t1 p = None \<or> t1 p = Some Dir"
    and "well_formed t \<Longrightarrow> well_formed t1"
proof -
  have n: "t p = None"
    using assms(1) by (simp add: tree_exists_def)
  show "t \<subseteq>\<^sub>m t1"
    using assms(2) by (auto intro: tree_mkdir_le)
  show "t1 p = None \<or> t1 p = Some Dir"
    using assms(2) n by (auto dest: mkdir_keeps_absent)
  show "well_formed t \<Longrightarrow> well_formed t1"
    using assms(2) by (auto intro: tree_mkdir_well_formed)
qed

lemma write_le:
  assumes "tree_write t1 p b = (err, t2)" and "t1 p = None \<or> t1 p = Some Dir"
  shows "t1 \<subseteq>\<^sub>m t2"
proof -
  from tree_write_cases [OF assms(1)] show ?thesis
  proof
    assume "err \<noteq> None \<and> t2 = t1 \<and> (is_dir t1 p \<or> \<not> is_dir t1 (path_dirname p))"
    then show ?thesis by simp
  next
    assume a: "\<not> is_dir t1 p \<and> is_dir t1 (path_dirname p) \<and> t2 = t1(p \<mapsto> File (chunks b))
               \<and> (err = None \<longleftrightarrow> ends_ok b)"
    then have "t1 p = None"
      using assms(2) by (auto simp: is_dir_def)
    then show ?thesis
      using a by (auto simp: map_le_def)
  qed
qed

lemma write_well_formed:
  assumes "tree_write t1 p b = (err, t2)" and "t1 p = None \<or> t1 p = Some Dir"
    and wf: "well_formed t1"
  shows "well_formed t2"
proof -
  have le: "t1 \<subseteq>\<^sub>m t2"
    using assms(1,2) by (rule write_le)
  from tree_write_cases [OF assms(1)] show ?thesis
  proof
    assume "err \<noteq> None \<and> t2 = t1 \<and> (is_dir t1 p \<or> \<not> is_dir t1 (path_dirname p))"
    then show ?thesis using wf by simp
  next
    assume a: "\<not> is_dir t1 p \<and> is_dir t1 (path_dirname p) \<and> t2 = t1(p \<mapsto> File (chunks b))
               \<and> (err = None \<longleftrightarrow> ends_ok b)"
    show ?thesis
      unfolding well_formed_def
    proof (intro allI impI)
      fix q
      assume q: "t2 q \<noteq> None"
      have "is_dir t1 (path_dirname q)"
      proof (cases "q = p")
        case True
        then show ?thesis using a by simp
      next
        case False
        then have "t1 q \<noteq> None"
          using q a by simp
        then show ?thesis
          using wf by (simp add: well_formed_def)
      qed
      then show "is_dir t2 (path_dirname q)"
        using le by (rule is_dir_mono [rotated])
    qed
  qed
qed

lemma fetch_extends:
  assumes "downloadFile s3 posix_fs key p w = (result, w')"
  shows "disk w \<subseteq>\<^sub>m disk w'"
  using assms
proof (cases rule: downloadFile_posix_cases)
  case skipped
  then show ?thesis by simp
next
  case (get_failed e)
  then show ?thesis by simp
next
  case (mkdir_failed b e)
  then show ?thesis by (auto dest: tree_mkdir_failed)
next
  case (written b t1 err)
  have "disk w \<subseteq>\<^sub>m t1" "t1 p = None \<or> t1 p = Some Dir"
    using before_write [OF written(1,3)] by simp_all
  moreover have "t1 \<subseteq>\<^sub>m disk w'"
    using written(4) \<open>t1 p = None \<or> t1 p = Some Dir\<close> by (rule write_le)
  ultimately show ?thesis
    by (blast intro: map_le_trans)
qed

lemma fetch_well_formed:
  assumes "downloadFile s3 posix_fs key p w = (result, w')" and wf: "well_formed (disk w)"
  shows "well_formed (disk w')"
  using assms(1)
proof (cases rule: downloadFile_posix_cases)
  case skipped
  then show ?thesis using wf by simp
next
  case (get_failed e)
  then show ?thesis using wf by simp
next
  case (mkdir_failed b e)
  then show ?thesis using wf by (auto dest: tree_mkdir_failed)
next
  case (written b t1 err)
  have "t1 p = None \<or> t1 p = Some Dir" "well_formed t1"
    using before_write [OF written(1,3)] wf by simp_all
  with written(4) show ?thesis
    by (rule write_well_formed)
qed

lemma fetch_materialized:
  assumes "downloadFile s3 posix_fs key p w = (result, w')" and "result \<noteq> Failed"
  shows "tree_exists (disk w') p"
  using assms(1)
proof (cases rule: downloadFile_posix_cases)
  case skipped
  then show ?thesis by simp
next
  case (get_failed e)
  then show ?thesis using assms(2) by simp
next
  case (mkdir_failed b e)
  then show ?thesis using assms(2) by simp
next
  case (written b t1 err)
  then have "err = None"
    using assms(2) by (simp split: if_splits)
  then have "disk w' = t1(p \<mapsto> File (chunks b))"
    using tree_write_cases [OF written(4)] by auto
  then show ?thesis
    by (simp add: tree_exists_def)
qed

lemma not_dir_is_file: "tree_exists t d \<Longrightarrow> \<not> is_dir t d \<Longrightarrow> is_file t d"
  by (auto simp: tree_exists_def is_dir_def is_file_def split: option.splits node.splits)

lemma fetch_settles:
  assumes "downloadFile s3 posix_fs key p w = (result, w')"
  shows "settled s3 (disk w') key p"
  using assms
proof (cases rule: downloadFile_posix_cases)
  case skipped
  then show ?thesis by (simp add: settled_def)
next
  case (get_failed e)
  then show ?thesis by (simp add: settled_def)
next
  case (mkdir_failed b e)
  from tree_mkdir_failed [OF mkdir_failed(4)] show ?thesis
    by (simp add: settled_def)
next
  case (written b t1 err)
  let ?dir = "path_dirname p"
  from tree_write_cases [OF written(4)] show ?thesis
  proof
    assume a: "err \<noteq> None \<and> disk w' = t1 \<and> (is_dir t1 p \<or> \<not> is_dir t1 ?dir)"
    show ?thesis
    proof (cases "is_dir t1 p")
      case True
      then show ?thesis
        using a by (simp add: settled_def is_dir_exists)
    next
      case False
      then have nd: "\<not> is_dir t1 ?dir"
        using a by simp
      have "tree_exists (disk w) ?dir \<and> t1 = disk w"
        using written(3) nd tree_mkdir_makes_dir [of "disk w" ?dir t1] path_dirname_not_Nil
        by auto
      then have f: "is_file t1 ?dir" and e: "tree_exists t1 ?dir"
        using nd by (auto intro: not_dir_is_file)
      have "\<not> is_root ?dir"
        using nd by (auto simp: is_dir_def)
      then have "?dir \<in> set (ancestors ?dir)"
        using path_dirname_not_Nil by (simp add: ancestors_self)
      then show ?thesis
        using f a by (auto simp: settled_def list_ex_iff)
    qed
  next
    assume "\<not> is_dir t1 p \<and> is_dir t1 ?dir \<and> disk w' = t1(p \<mapsto> File (chunks b))
            \<and> (err = None \<longleftrightarrow> ends_ok b)"
    then show ?thesis
      by (simp add: settled_def tree_exists_def)
  qed
qed

lemma settled_mono: "settled s3 t key p \<Longrightarrow> t \<subseteq>\<^sub>m t' \<Longrightarrow> settled s3 t' key p"
  by (auto simp: settled_def list_ex_iff intro: tree_exists_mono is_file_mono)

text \<open>A settled fetch on a well-formed tree changes nothing and downloads nothing.\<close>

lemma settled_fetch:
  assumes d: "downloadFile s3 posix_fs key p w = (result, w')"
    and s: "settled s3 (disk w) key p" and wf: "well_formed (disk w)"
  shows "disk w' = disk w \<and> result \<noteq> Downloaded
         \<and> (tree_exists (disk w) p \<longrightarrow> result = Skipped)"
  using d
proof (cases rule: downloadFile_posix_cases)
  case skipped
  then show ?thesis by simp
next
  case (get_failed e)
  then show ?thesis by simp
next
  case (mkdir_failed b e)
  then show ?thesis by (auto dest: tree_mkdir_failed)
next
  case (written b t1 err)
  let ?dir = "path_dirname p"
  let ?t = "disk w"
  obtain a where a: "a \<in> set (ancestors ?dir)" "is_file ?t a"
    using s written(1,2) by (auto simp: settled_def list_ex_iff)
  have "\<not> (\<not> tree_exists ?t ?dir \<and> tree_mkdir ?t ?dir = (None, t1))"
    using a tree_mkdir_made [of ?t ?dir t1] by (auto simp: list_ex_iff)
  then have e: "tree_exists ?t ?dir" and t1: "t1 = ?t"
    using written(3) by auto
  have nr: "?dir \<noteq> []" "\<not> is_root ?dir"
    using a(1) ancestors_Nil [of ?dir] by auto
  have "\<not> is_dir ?t ?dir"
  proof
    assume "is_dir ?t ?dir"
    then have td: "?t ?dir = Some Dir"
      using nr by (simp add: is_dir_def)
    have "?t a = Some Dir"
    proof (cases "a = ?dir")
      case True
      then show ?thesis using td by simp
    next
      case False
      then have "a \<in> set (ancestors (path_dirname ?dir))"
        using a(1) nr by (simp add: ancestors_Cons)
      then show ?thesis
        using well_formed_above [OF wf, of ?dir a] td by simp
    qed
    then show False
      using a(2) by (simp add: is_file_def)
  qed
  then have "err \<noteq> None \<and> disk w' = ?t"
    using tree_write_cases [OF written(4)] t1 by auto
  then show ?thesis
    using written(1,5) by simp
qed


section \<open>Running a piece of the run again\<close>

lemma rerun_result_from:
  "rerun_result r st r2 \<Longrightarrow> totalDownloaded st = totalDownloaded st' \<Longrightarrow>
   rerun_result r st' r2"
  by (auto simp: rerun_result_def split: sum.splits)

lemma replays_never: "replays (\<lambda>st w. None)"
  by (simp add: replays_def)

lemma replays_throw: "replays (\<lambda>st w. Some (Inl e, w))"
  by (auto simp: replays_def rerun_result_def)

lemma replays_return:
  assumes "\<And>st. totalDownloaded (g st) = totalDownloaded st"
  shows "replays (\<lambda>st w. Some (Inr (g st), w))"
  using assms by (auto simp: replays_def rerun_result_def)

lemma replays_before:
  assumes c: "replays c" and g: "\<And>st. totalDownloaded (g st) = totalDownloaded st"
  shows "replays (\<lambda>st w. c (g st) w)"
  unfolding replays_def
proof (intro allI impI)
  fix st w r w1
  assume wf: "well_formed (disk w)" and run: "c (g st) w = Some (r, w1)"
  from c [unfolded replays_def, rule_format, OF wf run]
  obtain lines1 where
    1: "well_formed (disk w1)" "disk w \<subseteq>\<^sub>m disk w1" "console w1 = console w @ lines1"
    and 2: "\<And>st2 w2. well_formed (disk w2) \<Longrightarrow> disk w1 \<subseteq>\<^sub>m disk w2 \<Longrightarrow>
              \<exists>r2 w3 lines2. c st2 w2 = Some (r2, w3) \<and> disk w3 = disk w2
                \<and> rerun_result r st2 r2 \<and> console w3 = console w2 @ lines2
                \<and> list_all2 rerun_line lines1 lines2"
    by blast
  have "\<exists>r2 w3 lines2. c (g st2) w2 = Some (r2, w3) \<and> disk w3 = disk w2
          \<and> rerun_result r st2 r2 \<and> console w3 = console w2 @ lines2
          \<and> list_all2 rerun_line lines1 lines2"
    if "well_formed (disk w2)" "disk w1 \<subseteq>\<^sub>m disk w2" for st2 w2
  proof -
    from 2 [OF that, of "g st2"] obtain r2 w3 lines2 where
      3: "c (g st2) w2 = Some (r2, w3)" "disk w3 = disk w2" "rerun_result r (g st2) r2"
      "console w3 = console w2 @ lines2" "list_all2 rerun_line lines1 lines2"
      by blast
    have "rerun_result r st2 r2"
      using 3(3) g [of st2] by (rule rerun_result_from)
    with 3 show ?thesis
      by blast
  qed
  with 1 show "well_formed (disk w1) \<and> disk w \<subseteq>\<^sub>m disk w1
        \<and> (\<exists>lines1. console w1 = console w @ lines1
             \<and> (\<forall>st2 w2. well_formed (disk w2) \<longrightarrow> disk w1 \<subseteq>\<^sub>m disk w2 \<longrightarrow>
                  (\<exists>r2 w3 lines2. c (g st2) w2 = Some (r2, w3) \<and> disk w3 = disk w2
                     \<and> rerun_result r st2 r2 \<and> console w3 = console w2 @ lines2
                     \<and> list_all2 rerun_line lines1 lines2)))"
    by blast
qed

lemma replays_and_then:
  assumes c1: "replays c1" and c2: "replays c2"
  shows "replays (\<lambda>st w. and_then (c1 st w) c2)"
  unfolding replays_def
proof (intro allI impI)
  fix st w r w1
  assume wf: "well_formed (disk w)" and run: "and_then (c1 st w) c2 = Some (r, w1)"
  then obtain ra wa where a: "c1 st w = Some (ra, wa)"
    by (cases "c1 st w") (auto simp: and_then_def)
  from c1 [unfolded replays_def, rule_format, OF wf a]
  obtain la where
    1: "well_formed (disk wa)" "disk w \<subseteq>\<^sub>m disk wa" "console wa = console w @ la"
    and 2: "\<And>st2 w2. well_formed (disk w2) \<Longrightarrow> disk wa \<subseteq>\<^sub>m disk w2 \<Longrightarrow>
              \<exists>r2 w3 lines2. c1 st2 w2 = Some (r2, w3) \<and> disk w3 = disk w2
                \<and> rerun_result ra st2 r2 \<and> console w3 = console w2 @ lines2
                \<and> list_all2 rerun_line la lines2"
    by blast
  show "well_formed (disk w1) \<and> disk w \<subseteq>\<^sub>m disk w1
        \<and> (\<exists>lines1. console w1 = console w @ lines1
             \<and> (\<forall>st2 w2. well_formed (disk w2) \<longrightarrow> disk w1 \<subseteq>\<^sub>m disk w2 \<longrightarrow>
                  (\<exists>r2 w3 lines2. and_then (c1 st2 w2) c2 = Some (r2, w3) \<and> disk w3 = disk w2
                     \<and> rerun_result r st2 r2 \<and> console w3 = console w2 @ lines2
                     \<and> list_all2 rerun_line lines1 lines2)))"
  proof (cases ra)
    case (Inl e)
    then have r: "r = Inl e" "w1 = wa"
      using run a by (simp_all add: and_then_def)
    have "\<exists>r2 w3 lines2. and_then (c1 st2 w2) c2 = Some (r2, w3) \<and> disk w3 = disk w2
            \<and> rerun_result r st2 r2 \<and> console w3 = console w2 @ lines2
            \<and> list_all2 rerun_line la lines2"
      if "well_formed (disk w2)" "disk w1 \<subseteq>\<^sub>m disk w2" for st2 w2
    proof -
      from 2 [of w2 st2] that r obtain r2 w3 lines2 where
        3: "c1 st2 w2 = Some (r2, w3)" "disk w3 = disk w2" "rerun_result ra st2 r2"
        "console w3 = console w2 @ lines2" "list_all2 rerun_line la lines2"
        by blast
      have "r2 = Inl e"
        using 3(3) Inl by (simp add: rerun_result_def)
      then have "and_then (c1 st2 w2) c2 = Some (r2, w3)" "rerun_result r st2 r2"
        using 3(1) r by (simp_all add: and_then_def rerun_result_def)
      with 3 show ?thesis
        by blast
    qed
    with 1 r show ?thesis
      by blast
  next
    case (Inr sta)
    then have b: "c2 sta wa = Some (r, w1)"
      using run a by (simp add: and_then_def)
    from c2 [unfolded replays_def, rule_format, OF 1(1) b]
    obtain lb where
      4: "well_formed (disk w1)" "disk wa \<subseteq>\<^sub>m disk w1" "console w1 = console wa @ lb"
      and 5: "\<And>st2 w2. well_formed (disk w2) \<Longrightarrow> disk w1 \<subseteq>\<^sub>m disk w2 \<Longrightarrow>
                \<exists>r2 w3 lines2. c2 st2 w2 = Some (r2, w3) \<and> disk w3 = disk w2
                  \<and> rerun_result r st2 r2 \<and> console w3 = console w2 @ lines2
                  \<and> list_all2 rerun_line lb lines2"
      by blast
    have le: "disk w \<subseteq>\<^sub>m disk w1"
      using 1(2) 4(2) by (rule map_le_trans)
    have co: "console w1 = console w @ (la @ lb)"
      using 1(3) 4(3) by simp
    have "\<exists>r2 w3 lines2. and_then (c1 st2 w2) c2 = Some (r2, w3) \<and> disk w3 = disk w2
            \<and> rerun_result r st2 r2 \<and> console w3 = console w2 @ lines2
            \<and> list_all2 rerun_line (la @ lb) lines2"
      if w2: "well_formed (disk w2)" "disk w1 \<subseteq>\<^sub>m disk w2" for st2 w2
    proof -
      have "disk wa \<subseteq>\<^sub>m disk w2"
        using 4(2) w2(2) by (rule map_le_trans)
      from 2 [OF w2(1) this, of st2] obtain r3 w3 l3 where
        6: "c1 st2 w2 = Some (r3, w3)" "disk w3 = disk w2" "rerun_result ra st2 r3"
        "console w3 = console w2 @ l3" "list_all2 rerun_line la l3"
        by blast
      obtain st3 where st3: "r3 = Inr st3" "totalDownloaded st3 = totalDownloaded st2"
        using 6(3) Inr by (cases r3) (auto simp: rerun_result_def)
      have "well_formed (disk w3)" "disk w1 \<subseteq>\<^sub>m disk w3"
        using w2 6(2) by simp_all
      from 5 [OF this, of st3] obtain r4 w4 l4 where
        7: "c2 st3 w3 = Some (r4, w4)" "disk w4 = disk w3" "rerun_result r st3 r4"
        "console w4 = console w3 @ l4" "list_all2 rerun_line lb l4"
        by blast
      have "and_then (c1 st2 w2) c2 = Some (r4, w4)"
        using 6(1) st3(1) 7(1) by (simp add: and_then_def)
      moreover have "disk w4 = disk w2"
        using 6(2) 7(2) by simp
      moreover have "rerun_result r st2 r4"
        using 7(3) st3(2) by (rule rerun_result_from)
      moreover have "console w4 = console w2 @ (l3 @ l4)"
        using 6(4) 7(4) by simp
      moreover have "list_all2 rerun_line (la @ lb) (l3 @ l4)"
        using 6(5) 7(5) by (rule list_all2_appendI)
      ultimately show ?thesis
        by blast
    qed
    with 4(1) le co show ?thesis
      by blast
  qed
qed

lemma replays_for_each:
  assumes "\<And>x. x \<in> set xs \<Longrightarrow> replays (f x)"
  shows "replays (for_each f xs)"
  using assms
proof (induction xs)
  case Nil
  have "for_each f [] = (\<lambda>st w. Some (Inr st, w))"
    by (intro ext) simp
  then show ?case
    using replays_return [of "\<lambda>st. st"] by simp
next
  case (Cons x xs)
  have "for_each f (x # xs) = (\<lambda>st w. and_then (f x st w) (for_each f xs))"
    by (intro ext) simp
  moreover have "replays (\<lambda>st w. and_then (f x st w) (for_each f xs))"
    using Cons by (intro replays_and_then) simp_all
  ultimately show ?case
    by simp
qed

lemma replays_download: "replays (download_and_count s3 posix_fs cfg key)"
  unfolding replays_def
proof (intro allI impI)
  fix st w r w1
  let ?p = "local_path cfg key"
  assume wf: "well_formed (disk w)"
    and run: "download_and_count s3 posix_fs cfg key st w = Some (r, w1)"
  obtain result where d: "downloadFile s3 posix_fs key ?p w = (result, w1)"
    and r: "r = Inr (tally result st)"
    using run by (cases "downloadFile s3 posix_fs key ?p w") (simp add: download_and_count_eq)
  from downloadFile_console [OF d] obtain line where
    l: "console w1 = console w @ [line]" "line_key line = key" "line_outcome line = result"
    by blast
  have wf1: "well_formed (disk w1)"
    using d wf by (rule fetch_well_formed)
  have le: "disk w \<subseteq>\<^sub>m disk w1"
    using d by (rule fetch_extends)
  have s1: "settled s3 (disk w1) key ?p"
    using d by (rule fetch_settles)
  have "\<exists>r2 w3 lines2. download_and_count s3 posix_fs cfg key st2 w2 = Some (r2, w3)
          \<and> disk w3 = disk w2 \<and> rerun_result r st2 r2 \<and> console w3 = console w2 @ lines2
          \<and> list_all2 rerun_line [line] lines2"
    if w2: "well_formed (disk w2)" "disk w1 \<subseteq>\<^sub>m disk w2" for st2 w2
  proof -
    obtain result2 w3 where d2: "downloadFile s3 posix_fs key ?p w2 = (result2, w3)"
      by (cases "downloadFile s3 posix_fs key ?p w2") auto
    from downloadFile_console [OF d2] obtain line2 where
      l2: "console w3 = console w2 @ [line2]" "line_key line2 = key"
      "line_outcome line2 = result2"
      by blast
    have s2: "settled s3 (disk w2) key ?p"
      using s1 w2(2) by (rule settled_mono)
    from settled_fetch [OF d2 s2 w2(1)] have
      n: "disk w3 = disk w2" "result2 \<noteq> Downloaded"
      "tree_exists (disk w2) ?p \<longrightarrow> result2 = Skipped"
      by simp_all
    have "result = Failed \<or> result2 = Skipped"
    proof (cases "result = Failed")
      case True
      then show ?thesis by simp
    next
      case False
      with d have "tree_exists (disk w1) ?p"
        by (rule fetch_materialized)
      then have "tree_exists (disk w2) ?p"
        using w2(2) by (rule tree_exists_mono [rotated])
      then show ?thesis
        using n(3) by simp
    qed
    then have "rerun_line line line2"
      using l(2,3) l2(2,3) n(2) by (simp add: rerun_line_def)
    moreover have "download_and_count s3 posix_fs cfg key st2 w2
                   = Some (Inr (tally result2 st2), w3)"
      using d2 by (simp add: download_and_count_eq)
    moreover have "rerun_result r st2 (Inr (tally result2 st2))"
      using r n(2) by (cases result2) (simp_all add: rerun_result_def tally_def)
    ultimately show ?thesis
      using n(1) l2(1) by (intro exI [of _ "Inr (tally result2 st2)"] exI [of _ w3]
          exI [of _ "[line2]"]) simp
  qed
  with wf1 le l(1) show "well_formed (disk w1) \<and> disk w \<subseteq>\<^sub>m disk w1
        \<and> (\<exists>lines1. console w1 = console w @ lines1
             \<and> (\<forall>st2 w2. well_formed (disk w2) \<longrightarrow> disk w1 \<subseteq>\<^sub>m disk w2 \<longrightarrow>
                  (\<exists>r2 w3 lines2.
                     download_and_count s3 posix_fs cfg key st2 w2 = Some (r2, w3)
                     \<and> disk w3 = disk w2 \<and> rerun_result r st2 r2
                     \<and> console w3 = console w2 @ lines2
                     \<and> list_all2 rerun_line lines1 lines2)))"
    by blast
qed

lemma replays_target_folder: "replays (target_folder_body s3 posix_fs cfg subFolder targetFolder)"
proof (cases "listAllFiles s3 (subFolder @ targetFolder)")
  case None
  then have "target_folder_body s3 posix_fs cfg subFolder targetFolder = (\<lambda>st w. None)"
    by (intro ext) (simp add: target_folder_body_def)
  then show ?thesis
    by (simp add: replays_never)
next
  case (Some listed)
  show ?thesis
  proof (cases listed)
    case (Inl e)
    then have "target_folder_body s3 posix_fs cfg subFolder targetFolder
               = (\<lambda>st w. Some (Inl e, w))"
      using Some by (intro ext) (simp add: target_folder_body_def)
    then show ?thesis
      by (simp add: replays_throw)
  next
    case (Inr files)
    let ?actual = "filter (\<lambda>key. \<not> endsWith key ''/'') files"
    show ?thesis
    proof (cases "?actual = []")
      case True
      then have "target_folder_body s3 posix_fs cfg subFolder targetFolder
                 = (\<lambda>st w. Some (Inr st, w))"
        using Some Inr by (intro ext) (simp add: target_folder_body_def)
      then show ?thesis
        using replays_return [of "\<lambda>st. st"] by simp
    next
      case False
      then have "target_folder_body s3 posix_fs cfg subFolder targetFolder
                 = for_each (download_and_count s3 posix_fs cfg) ?actual"
        using Some Inr by (intro ext) (simp add: target_folder_body_def)
      then show ?thesis
        by (simp add: replays_for_each replays_download)
    qed
  qed
qed

lemma replays_record_folder: "replays (record_folder_body s3 posix_fs cfg subFolder)"
proof -
  let ?json = "for_each (\<lambda>jsonFile. download_and_count s3 posix_fs cfg (subFolder @ jsonFile))
                 (JSON_FILES_TO_DOWNLOAD cfg)"
  let ?g = "\<lambda>st. st\<lparr>totalRecordFolders := totalRecordFolders st + 1\<rparr>"
  have "replays ?json"
    by (intro replays_for_each replays_download)
  then have "replays (\<lambda>st w. ?json (?g st) w)"
    by (rule replays_before) simp
  moreover have "replays (for_each (target_folder_body s3 posix_fs cfg subFolder)
                            (FOLDERS_TO_DOWNLOAD cfg))"
    by (intro replays_for_each replays_target_folder)
  ultimately have "replays (\<lambda>st w. and_then (?json (?g st) w)
                     (for_each (target_folder_body s3 posix_fs cfg subFolder)
                        (FOLDERS_TO_DOWNLOAD cfg)))"
    by (rule replays_and_then)
  moreover have "record_folder_body s3 posix_fs cfg subFolder
                 = (\<lambda>st w. and_then (?json (?g st) w)
                     (for_each (target_folder_body s3 posix_fs cfg subFolder)
                        (FOLDERS_TO_DOWNLOAD cfg)))"
    by (intro ext) (simp add: record_folder_body_def)
  ultimately show ?thesis
    by simp
qed

lemma replays_main_folder: "replays (main_folder_body s3 posix_fs cfg mainFolder)"
proof (cases "listFolders s3 (S3_BASE_PREFIX cfg @ mainFolder @ ''/'')")
  case None
  then have "main_folder_body s3 posix_fs cfg mainFolder = (\<lambda>st w. None)"
    by (intro ext) (simp add: main_folder_body_def)
  then show ?thesis
    by (simp add: replays_never)
next
  case (Some listed)
  show ?thesis
  proof (cases listed)
    case (Inl e)
    then have "main_folder_body s3 posix_fs cfg mainFolder = (\<lambda>st w. Some (Inl e, w))"
      using Some by (intro ext) (simp add: main_folder_body_def)
    then show ?thesis
      by (simp add: replays_throw)
  next
    case (Inr subFolders)
    show ?thesis
    proof (cases "subFolders = []")
      case True
      then have "main_folder_body s3 posix_fs cfg mainFolder = (\<lambda>st w. Some (Inr st, w))"
        using Some Inr by (intro ext) (simp add: main_folder_body_def)
      then show ?thesis
        using replays_return [of "\<lambda>st. st"] by simp
    next
      case False
      let ?count = "\<lambda>st' w'. Some (Inr (st'\<lparr>totalFolders := totalFolders st' + 1\<rparr>), w')"
      have "main_folder_body s3 posix_fs cfg mainFolder
            = (\<lambda>st w. and_then (for_each (record_folder_body s3 posix_fs cfg) subFolders st w)
                        ?count)"
        using Some Inr False by (intro ext) (simp add: main_folder_body_def)
      moreover have "replays (for_each (record_folder_body s3 posix_fs cfg) subFolders)"
        by (intro replays_for_each replays_record_folder)
      moreover have "replays ?count"
        by (rule replays_return) simp
      ultimately show ?thesis
        using replays_and_then
          [of "for_each (record_folder_body s3 posix_fs cfg) subFolders" ?count]
        by simp
    qed
  qed
qed


section \<open>The local path of a remote key\<close>

text \<open>
  C1. The local path of a key that begins with the base prefix is the rest of the key after
  the prefix, joined onto the download directory by \<open>path.join\<close>. When the directory and
  the rest are made of ordinary segments, that is the directory, a \<open>/\<close> and the rest. For
  the key \<open>base/a/b/c.json\<close>, the base prefix \<open>base/\<close> and the directory \<open>out\<close> the
  local path is \<open>out/a/b/c.json\<close>. Both download loops fetch every key to the local path
  derived in this way.
\<close>

theorem local_path_strips_prefix_and_joins:
  "local_path cfg (S3_BASE_PREFIX cfg @ rest) = path_join (DOWNLOAD_DIR cfg) rest
   \<and> (plain_path (DOWNLOAD_DIR cfg) \<and> plain_path rest \<longrightarrow>
        local_path cfg (S3_BASE_PREFIX cfg @ rest) = DOWNLOAD_DIR cfg @ ''/'' @ rest)
   \<and> local_path (cfg\<lparr>S3_BASE_PREFIX := ''base/'', DOWNLOAD_DIR := ''out''\<rparr>)
        ''base/a/b/c.json'' = ''out/a/b/c.json''
   \<and> download_and_count s3 fsys cfg fileKey st w
       = Some (Inr (tally (fst (downloadFile s3 fsys fileKey (local_path cfg fileKey) w)) st),
               snd (downloadFile s3 fsys fileKey (local_path cfg fileKey) w))"
proof -
  have strip: "local_path c (S3_BASE_PREFIX c @ r) = path_join (DOWNLOAD_DIR c) r" for c r
    by (simp add: local_path_def str_remove_first_prefix)
  have "local_path (cfg\<lparr>S3_BASE_PREFIX := ''base/'', DOWNLOAD_DIR := ''out''\<rparr>)
          (''base/'' @ ''a/b/c.json'') = path_join ''out'' ''a/b/c.json''"
    using strip [of "cfg\<lparr>S3_BASE_PREFIX := ''base/'', DOWNLOAD_DIR := ''out''\<rparr>" "''a/b/c.json''"]
    by simp
  moreover have "path_join ''out'' ''a/b/c.json'' = ''out/a/b/c.json''"
    by (simp add: path_join_def path_normalize_def)
  ultimately show ?thesis
    using strip [of cfg rest] by (simp add: path_join_plain download_and_count_eq)
qed

theorem local_path_strips_prefix_and_joins_witness:
  "plain_path (DOWNLOAD_DIR (source_config\<lparr>DOWNLOAD_DIR := ''downloads''\<rparr>))
   \<and> plain_path ''folder1/rec-1/metadata.json''
   \<and> local_path (source_config\<lparr>DOWNLOAD_DIR := ''downloads''\<rparr>)
        ''gis-data/folder/folder1/rec-1/metadata.json''
      = ''downloads/folder1/rec-1/metadata.json''"
  using local_path_strips_prefix_and_joins
    [of "source_config\<lparr>DOWNLOAD_DIR := ''downloads''\<rparr>" "''folder1/rec-1/metadata.json''",
      THEN conjunct2, THEN conjunct1]
  by (simp add: source_config_def plain_path_def plain_segment_def)


text \<open>
  C9, as stated, fails: \<open>path.join\<close> normalizes its result, so two keys that differ only
  by an empty segment are given the same local path. Both keys below begin with the base
  prefix of the shipped configuration and neither ends in \<open>/\<close>, so both pass the filter
  of the file loop.
\<close>

theorem local_path_collision:
  "''gis-data/folder/folder1/r/photos/a//b.jpg'' \<noteq> ''gis-data/folder/folder1/r/photos/a/b.jpg''
   \<and> prefix (S3_BASE_PREFIX source_config) ''gis-data/folder/folder1/r/photos/a//b.jpg''
   \<and> prefix (S3_BASE_PREFIX source_config) ''gis-data/folder/folder1/r/photos/a/b.jpg''
   \<and> \<not> endsWith ''gis-data/folder/folder1/r/photos/a//b.jpg'' ''/''
   \<and> \<not> endsWith ''gis-data/folder/folder1/r/photos/a/b.jpg'' ''/''
   \<and> local_path source_config ''gis-data/folder/folder1/r/photos/a//b.jpg''
       = ''downloads/folder1/r/photos/a/b.jpg''
   \<and> local_path source_config ''gis-data/folder/folder1/r/photos/a/b.jpg''
       = ''downloads/folder1/r/photos/a/b.jpg''"
  by (simp add: local_path_def source_config_def path_join_def path_normalize_def
      endsWith_def suffix_def)

text \<open>
  C9, amended. Two different keys that begin with the base prefix and continue with
  ordinary segments only (none empty, \<open>.\<close> or \<open>..\<close>) have different local paths,
  whatever the download directory is.
\<close>

theorem local_path_injective_on_plain_keys:
  assumes "plain_path rest1" and "plain_path rest2" and "rest1 \<noteq> rest2"
  shows "local_path cfg (S3_BASE_PREFIX cfg @ rest1)
         \<noteq> local_path cfg (S3_BASE_PREFIX cfg @ rest2)"
proof
  assume "local_path cfg (S3_BASE_PREFIX cfg @ rest1)
          = local_path cfg (S3_BASE_PREFIX cfg @ rest2)"
  then have "path_join (DOWNLOAD_DIR cfg) rest1 = path_join (DOWNLOAD_DIR cfg) rest2"
    by (simp add: local_path_def str_remove_first_prefix)
  then have "rest1 = rest2"
    using assms(1,2) by (rule path_join_inj [rotated 2])
  then show False
    using assms(3) by simp
qed

theorem local_path_injective_on_plain_keys_witness:
  "plain_path ''folder1/r/config.json'' \<and> plain_path ''folder1/r/metadata.json''
   \<and> ''folder1/r/config.json'' \<noteq> ''folder1/r/metadata.json''
   \<and> local_path source_config (S3_BASE_PREFIX source_config @ ''folder1/r/config.json'')
       \<noteq> local_path source_config (S3_BASE_PREFIX source_config @ ''folder1/r/metadata.json'')"
proof -
  have 1: "plain_path ''folder1/r/config.json''"
    by (simp add: plain_path_def plain_segment_def)
  have 2: "plain_path ''folder1/r/metadata.json''"
    by (simp add: plain_path_def plain_segment_def)
  have 3: "''folder1/r/config.json'' \<noteq> ''folder1/r/metadata.json''"
    by simp
  show ?thesis
    using 1 2 3 local_path_injective_on_plain_keys [OF 1 2 3, of source_config] by blast
qed


section \<open>Pagination\<close>

text \<open>
  C3. When the provider serves a chain of pages linked by continuation tokens,
  \<open>listAllFiles\<close> returns the keys of all pages, concatenated in the order served and
  unfiltered, and \<open>listFolders\<close> returns the common prefixes of all pages, each once.
  When a request of the chain fails, the loop throws that error and nothing of the pages
  read so far is returned. A loop that returns has read a chain up to a page that
  announces no further page.
\<close>

theorem pagination_complete:
  "(serves s3 pfx None None pages \<longrightarrow>
      listAllFiles s3 pfx = Some (Inr (concat (map page_keys pages))))
   \<and> (serves s3 pfx (Some ''/'') None pages \<longrightarrow>
        (\<exists>folders. listFolders s3 pfx = Some (Inr folders) \<and> distinct folders
           \<and> set folders = (\<Union>page \<in> set pages. set (page_prefixes page))))
   \<and> (serves_then_fails s3 pfx None None pages e \<longrightarrow> listAllFiles s3 pfx = Some (Inl e))
   \<and> (serves_then_fails s3 pfx (Some ''/'') None pages e \<longrightarrow>
        listFolders s3 pfx = Some (Inl e))
   \<and> (listAllFiles s3 pfx = Some (Inr keys) \<longrightarrow>
        (\<exists>served. serves s3 pfx None None served \<and> keys = concat (map page_keys served)))
   \<and> (listFolders s3 pfx = Some (Inr keys) \<longrightarrow>
        (\<exists>served. serves s3 pfx (Some ''/'') None served \<and> distinct keys
           \<and> set keys = (\<Union>page \<in> set served. set (page_prefixes page))))"
proof (intro conjI impI)
  assume "serves s3 pfx None None pages"
  then show "listAllFiles s3 pfx = Some (Inr (concat (map page_keys pages)))"
    using listAllFiles_loop_returns [of s3 pfx None pages "[]"] by (simp add: listAllFiles_def)
next
  assume "serves s3 pfx (Some ''/'') None pages"
  then have "listFolders s3 pfx
             = Some (Inr (fold set_add (concat (map page_prefixes pages)) []))"
    using listFolders_loop_returns [of s3 pfx None pages "[]"] by (simp add: listFolders_def)
  then show "\<exists>folders. listFolders s3 pfx = Some (Inr folders) \<and> distinct folders
               \<and> set folders = (\<Union>page \<in> set pages. set (page_prefixes page))"
    by (simp add: distinct_fold_set_add set_fold_set_add)
next
  assume "serves_then_fails s3 pfx None None pages e"
  then show "listAllFiles s3 pfx = Some (Inl e)"
    by (simp add: listAllFiles_def listAllFiles_loop_throws)
next
  assume "serves_then_fails s3 pfx (Some ''/'') None pages e"
  then show "listFolders s3 pfx = Some (Inl e)"
    by (simp add: listFolders_def listFolders_loop_throws)
next
  assume "listAllFiles s3 pfx = Some (Inr keys)"
  then have "listAllFiles_loop s3 pfx None [] = Some (Inr keys)"
    by (simp add: listAllFiles_def)
  from listAllFiles_loop_only [OF this]
  show "\<exists>served. serves s3 pfx None None served \<and> keys = concat (map page_keys served)"
    by simp
next
  assume "listFolders s3 pfx = Some (Inr keys)"
  then have "listFolders_loop s3 pfx None [] = Some (Inr keys)"
    by (simp add: listFolders_def)
  from listFolders_loop_only [OF this]
  obtain served where s: "serves s3 pfx (Some ''/'') None served"
    "keys = fold set_add (concat (map page_prefixes served)) []"
    by auto
  have "distinct keys \<and> set keys = (\<Union>page \<in> set served. set (page_prefixes page))"
    using s(2) by (simp add: distinct_fold_set_add set_fold_set_add)
  then show "\<exists>served. serves s3 pfx (Some ''/'') None served \<and> distinct keys
               \<and> set keys = (\<Union>page \<in> set served. set (page_prefixes page))"
    using s(1) by blast
qed

theorem pagination_complete_witness:
  "serves two_page_store ''p/'' None None [first_page, second_page]
   \<and> listAllFiles two_page_store ''p/'' = Some (Inr [''p/x.jpg'', ''p/y.jpg'', ''p/z.jpg''])
   \<and> serves two_page_store ''p/'' (Some ''/'') None [first_page, second_page]
   \<and> (\<exists>folders. listFolders two_page_store ''p/'' = Some (Inr folders) \<and> distinct folders
         \<and> set folders = {''p/a/'', ''p/b/'', ''p/c/''})
   \<and> serves_then_fails broken_store ''p/'' None None [first_page] (Error ''RequestTimeout'')
   \<and> listAllFiles broken_store ''p/'' = Some (Inl (Error ''RequestTimeout''))
   \<and> serves_then_fails broken_store ''p/'' (Some ''/'') None [first_page]
        (Error ''RequestTimeout'')
   \<and> listFolders broken_store ''p/'' = Some (Inl (Error ''RequestTimeout''))
   \<and> (\<exists>served. serves two_page_store ''p/'' None None served
         \<and> [''p/x.jpg'', ''p/y.jpg'', ''p/z.jpg''] = concat (map page_keys served))"
proof -
  have a: "serves two_page_store ''p/'' delim None [first_page, second_page]" for delim
    by (simp add: two_page_store_def first_page_def second_page_def truthy_def
        next_token_def)
  have b: "serves_then_fails broken_store ''p/'' delim None [first_page]
             (Error ''RequestTimeout'')" for delim
    by (simp add: broken_store_def first_page_def truthy_def next_token_def)
  note t = pagination_complete
    [of two_page_store "''p/''" "[first_page, second_page]" "Error ''RequestTimeout''"
      "[''p/x.jpg'', ''p/y.jpg'', ''p/z.jpg'']"]
  note f = pagination_complete
    [of broken_store "''p/''" "[first_page]" "Error ''RequestTimeout''" "[]"]
  have k: "concat (map page_keys [first_page, second_page])
           = [''p/x.jpg'', ''p/y.jpg'', ''p/z.jpg'']"
    by (simp add: page_keys_def first_page_def second_page_def)
  have p: "(\<Union>page \<in> set [first_page, second_page]. set (page_prefixes page))
           = {''p/a/'', ''p/b/'', ''p/c/''}"
    by (auto simp: page_prefixes_def first_page_def second_page_def)
  have 1: "listAllFiles two_page_store ''p/''
           = Some (Inr [''p/x.jpg'', ''p/y.jpg'', ''p/z.jpg''])"
    using t [THEN conjunct1, THEN mp, OF a] unfolding k .
  have 2: "\<exists>folders. listFolders two_page_store ''p/'' = Some (Inr folders)
             \<and> distinct folders \<and> set folders = {''p/a/'', ''p/b/'', ''p/c/''}"
    using t [THEN conjunct2, THEN conjunct1, THEN mp, OF a] unfolding p .
  have 3: "listAllFiles broken_store ''p/'' = Some (Inl (Error ''RequestTimeout''))"
    using f [THEN conjunct2, THEN conjunct2, THEN conjunct1, THEN mp, OF b] .
  have 4: "listFolders broken_store ''p/'' = Some (Inl (Error ''RequestTimeout''))"
    using f [THEN conjunct2, THEN conjunct2, THEN conjunct2, THEN conjunct1, THEN mp, OF b] .
  have 5: "\<exists>served. serves two_page_store ''p/'' None None served
             \<and> [''p/x.jpg'', ''p/y.jpg'', ''p/z.jpg''] = concat (map page_keys served)"
    using t [THEN conjunct2, THEN conjunct2, THEN conjunct2, THEN conjunct2, THEN conjunct1,
        THEN mp, OF 1] .
  show ?thesis
    using a b 1 2 3 4 5 by blast
qed


section \<open>Fetching\<close>

text \<open>
  C6. When the local path exists, \<open>downloadFile\<close> returns \<open>'skipped'\<close>, sends no
  \<open>GetObjectCommand\<close> and leaves the file system as it is, for every store and every
  file system. In \<open>posix_fs\<close> a path exists whatever it holds: a file of any content, or
  a directory.
\<close>

theorem existing_path_is_skipped:
  "(existsSync fsys (disk w) localPath \<longrightarrow>
      downloadFile s3 fsys key localPath w
        = (Skipped, w\<lparr>console := console w @ [Skipped_line key]\<rparr>)
      \<and> get_requests (snd (downloadFile s3 fsys key localPath w)) = get_requests w
      \<and> disk (snd (downloadFile s3 fsys key localPath w)) = disk w)
   \<and> (disk v localPath = Some held \<longrightarrow>
        fst (downloadFile s3 posix_fs key localPath v) = Skipped
        \<and> get_requests (snd (downloadFile s3 posix_fs key localPath v)) = get_requests v
        \<and> disk (snd (downloadFile s3 posix_fs key localPath v)) = disk v)"
  by (simp add: downloadFile_def posix_fs_def tree_exists_def)

theorem existing_path_is_skipped_witness:
  "existsSync posix_fs (disk (empty_world\<lparr>disk := [''out/a.jpg'' \<mapsto> File ''JP'']\<rparr>)) ''out/a.jpg''
   \<and> disk (empty_world\<lparr>disk := [''out/a.jpg'' \<mapsto> File ''JP'']\<rparr>) ''out/a.jpg''
       = Some (File ''JP'')
   \<and> send_get demo_store ''base/folder1/rec-1/photos/img1.jpg'' = Inr (Body ''JPEG'' True)
   \<and> fst (downloadFile demo_store posix_fs ''base/folder1/rec-1/photos/img1.jpg'' ''out/a.jpg''
            (empty_world\<lparr>disk := [''out/a.jpg'' \<mapsto> File ''JP'']\<rparr>)) = Skipped
   \<and> get_requests
         (snd (downloadFile demo_store posix_fs ''base/folder1/rec-1/photos/img1.jpg''
                 ''out/a.jpg'' (empty_world\<lparr>disk := [''out/a.jpg'' \<mapsto> File ''JP'']\<rparr>))) = []"
proof -
  let ?w = "empty_world\<lparr>disk := [''out/a.jpg'' \<mapsto> File ''JP'']\<rparr>"
  have e: "existsSync posix_fs (disk ?w) ''out/a.jpg''"
    by (simp add: posix_fs_def tree_exists_def)
  have d: "disk ?w ''out/a.jpg'' = Some (File ''JP'')"
    by simp
  have g: "send_get demo_store ''base/folder1/rec-1/photos/img1.jpg'' = Inr (Body ''JPEG'' True)"
    by (simp add: demo_store_def)
  note t = existing_path_is_skipped
    [of posix_fs ?w "''out/a.jpg''" demo_store "''base/folder1/rec-1/photos/img1.jpg''"
      ?w "File ''JP''"]
  have "fst (downloadFile demo_store posix_fs ''base/folder1/rec-1/photos/img1.jpg''
               ''out/a.jpg'' ?w) = Skipped"
    using t [THEN conjunct2, THEN mp, OF d] by simp
  moreover have "get_requests
         (snd (downloadFile demo_store posix_fs ''base/folder1/rec-1/photos/img1.jpg''
                 ''out/a.jpg'' ?w)) = []"
    using t [THEN conjunct1, THEN mp, OF e] by (simp add: empty_world_def)
  ultimately show ?thesis
    using e d g by blast
qed

text \<open>
  C10. When the local path does not exist and the \<open>GetObjectCommand\<close> fails,
  \<open>downloadFile\<close> returns \<open>false\<close> and the file system is unchanged: the result does not
  depend on what \<open>mkdirSync\<close> and the write would do, because neither is reached.
\<close>

theorem failed_read_leaves_disk_unchanged:
  assumes "\<not> existsSync fsys (disk w) localPath" and "send_get s3 key = Inl e"
  shows "downloadFile s3 fsys key localPath w
           = (Failed, w\<lparr>get_requests := get_requests w @ [key],
                         console := console w @ [Error_line key (message e)]\<rparr>)
         \<and> disk (snd (downloadFile s3 fsys key localPath w)) = disk w"
  using assms by (simp add: downloadFile_def)

theorem failed_read_leaves_disk_unchanged_witness:
  "\<not> existsSync posix_fs (disk empty_world) ''out/folder1/rec-1/config.json''
   \<and> send_get demo_store ''base/folder1/rec-1/config.json'' = Inl (Error ''NoSuchKey'')
   \<and> fst (downloadFile demo_store posix_fs ''base/folder1/rec-1/config.json''
             ''out/folder1/rec-1/config.json'' empty_world) = Failed
   \<and> disk (snd (downloadFile demo_store posix_fs ''base/folder1/rec-1/config.json''
                   ''out/folder1/rec-1/config.json'' empty_world)) = Map.empty"
proof -
  have e: "\<not> existsSync posix_fs (disk empty_world) ''out/folder1/rec-1/config.json''"
    by (simp add: posix_fs_def tree_exists_def empty_world_def is_root_def)
  have g: "send_get demo_store ''base/folder1/rec-1/config.json'' = Inl (Error ''NoSuchKey'')"
    by (simp add: demo_store_def)
  show ?thesis
    using e g failed_read_leaves_disk_unchanged [OF e g] by (simp add: empty_world_def)
qed


text \<open>
  C2. Whatever fails inside \<open>downloadFile\<close> (the \<open>GetObjectCommand\<close>, making the
  directory, or the piped write, which covers the stream breaking off) ends in the result
  \<open>false\<close>. \<open>downloadFile\<close> has no other way out: it always returns one of its three
  results. A loop over keys therefore always completes, for every store and every file
  system: it leaves one console line per key, in the order of the keys, and the three
  counters grow by the number of keys, so the keys before and after one that fails are
  attempted and counted all the same.
\<close>

theorem fetch_errors_become_failed:
  "(\<not> existsSync fsys (disk w) p \<and> send_get s3 key = Inl e \<longrightarrow>
      fst (downloadFile s3 fsys key p w) = Failed)
   \<and> (\<not> existsSync fsys (disk w) p \<and> send_get s3 key = Inr b
       \<and> \<not> existsSync fsys (disk w) (path_dirname p)
       \<and> fst (mkdirSync fsys (disk w) (path_dirname p)) = Some e \<longrightarrow>
        fst (downloadFile s3 fsys key p w) = Failed)
   \<and> (\<not> existsSync fsys (disk w) p \<and> send_get s3 key = Inr b
       \<and> existsSync fsys (disk w) (path_dirname p)
       \<and> fst (write_stream fsys (disk w) p b) = Some e \<longrightarrow>
        fst (downloadFile s3 fsys key p w) = Failed)
   \<and> (\<not> existsSync fsys (disk w) p \<and> send_get s3 key = Inr b
       \<and> \<not> existsSync fsys (disk w) (path_dirname p)
       \<and> fst (mkdirSync fsys (disk w) (path_dirname p)) = None
       \<and> fst (write_stream fsys (snd (mkdirSync fsys (disk w) (path_dirname p))) p b) = Some e
       \<longrightarrow> fst (downloadFile s3 fsys key p w) = Failed)
   \<and> (\<exists>st' w' lines.
         for_each (\<lambda>x. download_and_count s3 fsys cfg (g x)) xs st w = Some (Inr st', w')
         \<and> console w' = console w @ lines \<and> map line_key lines = map g xs
         \<and> totalDownloaded st' + totalSkipped st' + totalFailed st'
             = totalDownloaded st + totalSkipped st + totalFailed st + length xs)"
proof (intro conjI)
  from for_each_download_completes [of s3 fsys cfg g xs st w] obtain st' w' lines where
    r: "for_each (\<lambda>x. download_and_count s3 fsys cfg (g x)) xs st w = Some (Inr st', w')"
    "console w' = console w @ lines" "map line_key lines = map g xs"
    "totalDownloaded st' = totalDownloaded st + count_outcome Downloaded lines"
    "totalSkipped st' = totalSkipped st + count_outcome Skipped lines"
    "totalFailed st' = totalFailed st + count_outcome Failed lines"
    by blast
  have "length lines = length xs"
    using r(3) by (metis length_map)
  then have "totalDownloaded st' + totalSkipped st' + totalFailed st'
             = totalDownloaded st + totalSkipped st + totalFailed st + length xs"
    using r(4-6) count_outcome_total [of lines] by simp
  with r(1-3) show "\<exists>st' w' lines.
         for_each (\<lambda>x. download_and_count s3 fsys cfg (g x)) xs st w = Some (Inr st', w')
         \<and> console w' = console w @ lines \<and> map line_key lines = map g xs
         \<and> totalDownloaded st' + totalSkipped st' + totalFailed st'
             = totalDownloaded st + totalSkipped st + totalFailed st + length xs"
    by blast
qed (auto simp: downloadFile_def Let_def split: prod.splits option.splits)

theorem fetch_errors_become_failed_witness:
  "fst (downloadFile demo_store posix_fs ''base/folder1/rec-1/config.json''
          ''out/folder1/rec-1/config.json'' empty_world) = Failed
   \<and> fst (downloadFile demo_store posix_fs ''base/folder1/rec-1/metadata.json''
             ''out/a/b.json'' (empty_world\<lparr>disk := [''out'' \<mapsto> File '''']\<rparr>)) = Failed
   \<and> fst (downloadFile demo_store posix_fs ''base/folder1/rec-1/metadata.json''
             ''out/b.json'' (empty_world\<lparr>disk := [''out'' \<mapsto> File '''']\<rparr>)) = Failed
   \<and> fst (downloadFile demo_store posix_fs ''base/folder1/rec-1/photos/img2.jpg''
             ''out/img2.jpg'' empty_world) = Failed
   \<and> (\<exists>st' w' lines.
         for_each (download_and_count demo_store posix_fs demo_config)
           [''base/folder1/rec-1/metadata.json'', ''base/folder1/rec-1/photos/img1.jpg'',
            ''base/folder1/rec-1/config.json'', ''base/folder1/rec-1/metadata.json'',
            ''base/folder1/rec-1/photos/img1.jpg''] initial_stats empty_world
           = Some (Inr st', w')
         \<and> console w' = lines
         \<and> map line_key lines
             = [''base/folder1/rec-1/metadata.json'', ''base/folder1/rec-1/photos/img1.jpg'',
                ''base/folder1/rec-1/config.json'', ''base/folder1/rec-1/metadata.json'',
                ''base/folder1/rec-1/photos/img1.jpg'']
         \<and> line_outcome (lines ! 2) = Failed
         \<and> totalDownloaded st' + totalSkipped st' + totalFailed st' = 5)"
proof -
  let ?blocked = "empty_world\<lparr>disk := [''out'' \<mapsto> File '''']\<rparr>"
  let ?keys = "[''base/folder1/rec-1/metadata.json'', ''base/folder1/rec-1/photos/img1.jpg'',
            ''base/folder1/rec-1/config.json'', ''base/folder1/rec-1/metadata.json'',
            ''base/folder1/rec-1/photos/img1.jpg'']"
  have h1: "\<not> existsSync posix_fs (disk empty_world) ''out/folder1/rec-1/config.json''
            \<and> send_get demo_store ''base/folder1/rec-1/config.json'' = Inl (Error ''NoSuchKey'')"
    by (simp add: posix_fs_def tree_exists_def empty_world_def is_root_def demo_store_def)
  have h2: "\<not> existsSync posix_fs (disk ?blocked) ''out/a/b.json''
            \<and> send_get demo_store ''base/folder1/rec-1/metadata.json'' = Inr (Body ''{}'' True)
            \<and> \<not> existsSync posix_fs (disk ?blocked) (path_dirname ''out/a/b.json'')
            \<and> fst (mkdirSync posix_fs (disk ?blocked) (path_dirname ''out/a/b.json''))
                = Some (Error ''ENOTDIR'')"
    by (simp add: posix_fs_def tree_exists_def tree_mkdir_def ancestors.simps is_file_def is_root_def
        demo_store_def path_dirname_def)
  have h3: "\<not> existsSync posix_fs (disk ?blocked) ''out/b.json''
            \<and> send_get demo_store ''base/folder1/rec-1/metadata.json'' = Inr (Body ''{}'' True)
            \<and> existsSync posix_fs (disk ?blocked) (path_dirname ''out/b.json'')
            \<and> fst (write_stream posix_fs (disk ?blocked) ''out/b.json'' (Body ''{}'' True))
                = Some (Error ''ENOENT'')"
    by (simp add: posix_fs_def tree_exists_def tree_write_def is_dir_def is_root_def
        demo_store_def path_dirname_def)
  have h4: "\<not> existsSync posix_fs (disk empty_world) ''out/img2.jpg''
            \<and> send_get demo_store ''base/folder1/rec-1/photos/img2.jpg'' = Inr (Body ''JP'' False)
            \<and> \<not> existsSync posix_fs (disk empty_world) (path_dirname ''out/img2.jpg'')
            \<and> fst (mkdirSync posix_fs (disk empty_world) (path_dirname ''out/img2.jpg'')) = None
            \<and> fst (write_stream posix_fs
                      (snd (mkdirSync posix_fs (disk empty_world) (path_dirname ''out/img2.jpg'')))
                      ''out/img2.jpg'' (Body ''JP'' False)) = Some (Error ''aborted'')"
    by (simp add: posix_fs_def tree_exists_def tree_mkdir_def ancestors.simps tree_write_def is_dir_def
        is_file_def is_root_def demo_store_def path_dirname_def empty_world_def)
  have c1: "fst (downloadFile demo_store posix_fs ''base/folder1/rec-1/config.json''
              ''out/folder1/rec-1/config.json'' empty_world) = Failed"
    using fetch_errors_become_failed
      [of posix_fs empty_world _ demo_store, THEN conjunct1, THEN mp, OF h1] .
  have c2: "fst (downloadFile demo_store posix_fs ''base/folder1/rec-1/metadata.json''
                 ''out/a/b.json'' ?blocked) = Failed"
    using fetch_errors_become_failed
      [of posix_fs ?blocked _ demo_store, THEN conjunct2, THEN conjunct1, THEN mp, OF h2] .
  have c3: "fst (downloadFile demo_store posix_fs ''base/folder1/rec-1/metadata.json''
                 ''out/b.json'' ?blocked) = Failed"
    using fetch_errors_become_failed
      [of posix_fs ?blocked _ demo_store,
        THEN conjunct2, THEN conjunct2, THEN conjunct1, THEN mp, OF h3] .
  have c4: "fst (downloadFile demo_store posix_fs ''base/folder1/rec-1/photos/img2.jpg''
                 ''out/img2.jpg'' empty_world) = Failed"
    using fetch_errors_become_failed
      [of posix_fs empty_world _ demo_store,
        THEN conjunct2, THEN conjunct2, THEN conjunct2, THEN conjunct1, THEN mp, OF h4] .
  from fetch_errors_become_failed
      [of posix_fs empty_world _ demo_store _ _ _ demo_config "\<lambda>x. x" ?keys initial_stats,
        THEN conjunct2, THEN conjunct2, THEN conjunct2, THEN conjunct2]
  obtain st' w' lines where
    r: "for_each (download_and_count demo_store posix_fs demo_config) ?keys initial_stats
          empty_world = Some (Inr st', w')"
    "console w' = console empty_world @ lines" "map line_key lines = ?keys"
    "totalDownloaded st' + totalSkipped st' + totalFailed st'
     = totalDownloaded initial_stats + totalSkipped initial_stats + totalFailed initial_stats
       + length ?keys"
    by auto
  have third: "line_outcome (console w' ! 2) = Failed"
    using r(1)
    by (simp add: and_then_def download_and_count_def downloadFile_def posix_fs_def
        tree_exists_def tree_mkdir_def ancestors.simps tree_write_def is_dir_def is_file_def is_root_def
        local_path_def path_join_def path_normalize_def path_dirname_def demo_store_def
        demo_config_def empty_world_def tally_def initial_stats_def Let_def)
      (auto simp: empty_world_def)
  have l: "console w' = lines"
    using r(2) by (simp add: empty_world_def)
  have n: "totalDownloaded st' + totalSkipped st' + totalFailed st' = 5"
    using r(4) by (simp add: initial_stats_def)
  have c5: "\<exists>st' w' lines.
         for_each (download_and_count demo_store posix_fs demo_config) ?keys initial_stats
           empty_world = Some (Inr st', w')
         \<and> console w' = lines \<and> map line_key lines = ?keys
         \<and> line_outcome (lines ! 2) = Failed
         \<and> totalDownloaded st' + totalSkipped st' + totalFailed st' = 5"
  proof (intro exI conjI)
    show "for_each (download_and_count demo_store posix_fs demo_config) ?keys initial_stats
           empty_world = Some (Inr st', w')"
      by (rule r(1))
    show "console w' = lines"
      by (rule l)
    show "map line_key lines = ?keys"
      by (rule r(3))
    show "line_outcome (lines ! 2) = Failed"
      using third unfolding l .
    show "totalDownloaded st' + totalSkipped st' + totalFailed st' = 5"
      by (rule n)
  qed
  show ?thesis
    by (intro conjI) (rule c1 c2 c3 c4 c5)+
qed


section \<open>Counters\<close>

text \<open>
  C5. Counting the result of one fetch adds 1 to exactly one of \<open>totalDownloaded\<close>,
  \<open>totalSkipped\<close> and \<open>totalFailed\<close> and changes nothing else. At the end of a run each
  of the three equals the number of console lines of its kind that the run has added, one
  line being added by each call of \<open>downloadFile\<close>, so their sum is the number of fetches
  attempted. No counter is ever smaller after a step of the run (a fetch, a target folder,
  a record folder, a main folder, or any number of main folders) than before it.
\<close>

theorem counters_account_for_every_fetch:
  "totalDownloaded (tally result st) = totalDownloaded st + (if result = Downloaded then 1 else 0)
   \<and> totalSkipped (tally result st) = totalSkipped st + (if result = Skipped then 1 else 0)
   \<and> totalFailed (tally result st) = totalFailed st + (if result = Failed then 1 else 0)
   \<and> totalFolders (tally result st) = totalFolders st
   \<and> totalRecordFolders (tally result st) = totalRecordFolders st
   \<and> (downloadFromS3 s3 fsys cfg w = Some (Inr st', w') \<longrightarrow>
        (\<exists>lines. console w' = console w @ lines
           \<and> totalDownloaded st' = count_outcome Downloaded lines
           \<and> totalSkipped st' = count_outcome Skipped lines
           \<and> totalFailed st' = count_outcome Failed lines
           \<and> totalDownloaded st' + totalSkipped st' + totalFailed st' = length lines))
   \<and> (download_and_count s3 fsys cfg fileKey st w = Some (Inr st', w') \<longrightarrow> counters_le st st')
   \<and> (target_folder_body s3 fsys cfg subFolder targetFolder st w = Some (Inr st', w') \<longrightarrow>
        counters_le st st')
   \<and> (record_folder_body s3 fsys cfg subFolder st w = Some (Inr st', w') \<longrightarrow>
        counters_le st st')
   \<and> (main_folder_body s3 fsys cfg mainFolder st w = Some (Inr st', w') \<longrightarrow>
        counters_le st st')
   \<and> (for_each (main_folder_body s3 fsys cfg) folders st w = Some (Inr st', w') \<longrightarrow>
        counters_le st st')
   \<and> (\<exists>line. console (snd (downloadFile s3 fsys key localPath w)) = console w @ [line]
         \<and> line_key line = key
         \<and> line_outcome line = fst (downloadFile s3 fsys key localPath w))"
proof -
  have run: "\<exists>lines. console w' = console w @ lines
           \<and> totalDownloaded st' = count_outcome Downloaded lines
           \<and> totalSkipped st' = count_outcome Skipped lines
           \<and> totalFailed st' = count_outcome Failed lines
           \<and> totalDownloaded st' + totalSkipped st' + totalFailed st' = length lines"
    if "downloadFromS3 s3 fsys cfg w = Some (Inr st', w')"
  proof -
    have "accounted (initial_stats, w) (st', w')"
      using that unfolding downloadFromS3_def by (rule main_folders_accounted)
    then obtain lines where
      l: "console w' = console w @ lines"
      "totalDownloaded st' = count_outcome Downloaded lines"
      "totalSkipped st' = count_outcome Skipped lines"
      "totalFailed st' = count_outcome Failed lines"
      by (auto simp: accounted_def initial_stats_def)
    then have "totalDownloaded st' + totalSkipped st' + totalFailed st' = length lines"
      using count_outcome_total [of lines] by simp
    with l show ?thesis
      by blast
  qed
  have "totalDownloaded (tally result st)
          = totalDownloaded st + (if result = Downloaded then 1 else 0)
        \<and> totalSkipped (tally result st) = totalSkipped st + (if result = Skipped then 1 else 0)
        \<and> totalFailed (tally result st) = totalFailed st + (if result = Failed then 1 else 0)
        \<and> totalFolders (tally result st) = totalFolders st
        \<and> totalRecordFolders (tally result st) = totalRecordFolders st"
    by (cases result) (simp_all add: tally_def)
  moreover have "counters_le st st'"
    if "download_and_count s3 fsys cfg fileKey st w = Some (Inr st', w')"
    using download_and_count_accounted [OF that] by (rule accounted_counters_le)
  moreover have "counters_le st st'"
    if "target_folder_body s3 fsys cfg subFolder targetFolder st w = Some (Inr st', w')"
    using target_folder_body_accounted [OF that] by (rule accounted_counters_le)
  moreover have "counters_le st st'"
    if "record_folder_body s3 fsys cfg subFolder st w = Some (Inr st', w')"
    using record_folder_body_accounted [OF that] by (rule accounted_counters_le)
  moreover have "counters_le st st'"
    if "main_folder_body s3 fsys cfg mainFolder st w = Some (Inr st', w')"
    using main_folder_body_accounted [OF that] by (rule accounted_counters_le)
  moreover have "counters_le st st'"
    if "for_each (main_folder_body s3 fsys cfg) folders st w = Some (Inr st', w')"
    using main_folders_accounted [OF that] by (rule accounted_counters_le)
  moreover have "\<exists>line. console (snd (downloadFile s3 fsys key localPath w)) = console w @ [line]
         \<and> line_key line = key
         \<and> line_outcome line = fst (downloadFile s3 fsys key localPath w)"
    by (rule downloadFile_console) simp
  ultimately show ?thesis
    using run by simp
qed

theorem counters_account_for_every_fetch_witness:
  "\<exists>st' w'. downloadFromS3 demo_store posix_fs demo_config empty_world = Some (Inr st', w')
     \<and> length (console w') = 4
     \<and> totalDownloaded st' + totalSkipped st' + totalFailed st' = 4
     \<and> counters_le initial_stats st'"
proof -
  have "\<exists>st' w'. downloadFromS3 demo_store posix_fs demo_config empty_world
                   = Some (Inr st', w') \<and> length (console w') = 4"
    using demo_run by auto
  then obtain st' w' where
    a: "downloadFromS3 demo_store posix_fs demo_config empty_world = Some (Inr st', w')"
    and n: "length (console w') = 4"
    by blast
  note t = counters_account_for_every_fetch
    [of _ initial_stats demo_store posix_fs demo_config empty_world st' w' _ _ _ _
      "MAIN_FOLDERS demo_config"]
  from t a obtain lines where
    l: "console w' = console empty_world @ lines"
    "totalDownloaded st' + totalSkipped st' + totalFailed st' = length lines"
    by blast
  have "counters_le initial_stats st'"
    using t a by (simp add: downloadFromS3_def)
  moreover have "totalDownloaded st' + totalSkipped st' + totalFailed st' = 4"
    using n l by (simp add: empty_world_def)
  ultimately show ?thesis
    using a n by blast
qed


text \<open>
  C7, as stated, fails in its first half: a main folder without record folders is left
  with \<open>continue\<close> before \<open>totalFolders++\<close> is reached. In the bucket of \<open>demo_store\<close>
  the main folder \<open>folder2\<close> has no record folders; a run over it alone completes,
  changes nothing, and ends with every counter at 0.
\<close>

theorem empty_main_folder_is_not_counted:
  "record_folders demo_store demo_config ''folder2'' = []
   \<and> downloadFromS3 demo_store posix_fs (demo_config\<lparr>MAIN_FOLDERS := [''folder2'']\<rparr>) empty_world
       = Some (Inr initial_stats, empty_world)
   \<and> totalFolders initial_stats = 0"
  by (simp add: downloadFromS3_def main_folder_body_def record_folders_def scan_prefix_def
      listFolders_def listFolders_loop.simps single_page_def next_token_def truthy_def
      and_then_def demo_store_def demo_config_def initial_stats_def)

text \<open>
  C7, amended. At the end of a run that completes, \<open>totalFolders\<close> is the number of main
  folders that have at least one record folder, and \<open>totalRecordFolders\<close> is the number
  of record folders of all main folders together.
\<close>

theorem folder_counters:
  assumes "downloadFromS3 s3 fsys cfg w = Some (Inr st, w')"
  shows "totalFolders st
           = length (filter (\<lambda>mainFolder. record_folders s3 cfg mainFolder \<noteq> [])
                       (MAIN_FOLDERS cfg))
         \<and> totalRecordFolders st
             = sum_list (map (\<lambda>mainFolder. length (record_folders s3 cfg mainFolder))
                          (MAIN_FOLDERS cfg))"
proof -
  have r: "for_each (main_folder_body s3 fsys cfg) (MAIN_FOLDERS cfg) initial_stats w
           = Some (Inr st, w')"
    using assms by (simp add: downloadFromS3_def)
  have "totalFolders st = totalFolders initial_stats
          + sum_list (map (\<lambda>m. if record_folders s3 cfg m = [] then 0 else 1)
                       (MAIN_FOLDERS cfg))"
    by (rule for_each_adds [OF _ r]) (simp add: main_folder_body_folders)
  moreover have "totalRecordFolders st = totalRecordFolders initial_stats
          + sum_list (map (\<lambda>m. length (record_folders s3 cfg m)) (MAIN_FOLDERS cfg))"
    by (rule for_each_adds [OF _ r]) (simp add: main_folder_body_folders)
  ultimately show ?thesis
    by (simp add: initial_stats_def sum_list_indicator)
qed

theorem folder_counters_witness:
  "\<exists>st w'. downloadFromS3 demo_store posix_fs demo_config empty_world = Some (Inr st, w')
     \<and> MAIN_FOLDERS demo_config = [''folder1'', ''folder2'']
     \<and> record_folders demo_store demo_config ''folder1'' = [''base/folder1/rec-1/'']
     \<and> record_folders demo_store demo_config ''folder2'' = []
     \<and> totalFolders st = 1 \<and> totalRecordFolders st = 1"
proof -
  obtain st w' where
    r: "downloadFromS3 demo_store posix_fs demo_config empty_world = Some (Inr st, w')"
    using demo_run by blast
  have f: "record_folders demo_store demo_config ''folder1'' = [''base/folder1/rec-1/'']"
    "record_folders demo_store demo_config ''folder2'' = []"
    by (simp_all add: record_folders_def scan_prefix_def demo_config_def demo_listings)
  have m: "MAIN_FOLDERS demo_config = [''folder1'', ''folder2'']"
    by (simp add: demo_config_def)
  have "totalFolders st = 1 \<and> totalRecordFolders st = 1"
    using folder_counters [OF r] by (simp add: m f)
  then show ?thesis
    using r m f by blast
qed


section \<open>The exit code\<close>

text \<open>
  C8. When every listing that the run asks for returns, the run completes and the process
  ends with code 0, for every store and every file system, so whatever fetches fail on
  the way. When the run throws, the process exits with code 1, and the error is one
  thrown by a listing. A process that ends does so with code 0 after a completed run or
  with code 1 after a run that threw.
\<close>

theorem exit_code_contract:
  "((\<forall>mainFolder \<in> set (MAIN_FOLDERS cfg).
       \<exists>subFolders. listFolders s3 (scan_prefix cfg mainFolder) = Some (Inr subFolders)
         \<and> (\<forall>subFolder \<in> set subFolders. \<forall>targetFolder \<in> set (FOLDERS_TO_DOWNLOAD cfg).
              \<exists>files. listAllFiles s3 (subFolder @ targetFolder) = Some (Inr files)))
     \<longrightarrow> (\<exists>st w'. downloadFromS3 s3 fsys cfg w = Some (Inr st, w'))
          \<and> script s3 fsys cfg w = Some 0)
   \<and> (downloadFromS3 s3 fsys cfg w = Some (Inl e, w') \<longrightarrow>
        script s3 fsys cfg w = Some 1
        \<and> ((\<exists>pfx. listFolders s3 pfx = Some (Inl e))
            \<or> (\<exists>pfx. listAllFiles s3 pfx = Some (Inl e))))
   \<and> (script s3 fsys cfg w = Some code \<longrightarrow>
        (code = 0 \<and> (\<exists>st w'. downloadFromS3 s3 fsys cfg w = Some (Inr st, w')))
        \<or> (code = 1 \<and> (\<exists>e w'. downloadFromS3 s3 fsys cfg w = Some (Inl e, w'))))"
proof (intro conjI impI)
  assume a: "\<forall>mainFolder \<in> set (MAIN_FOLDERS cfg).
       \<exists>subFolders. listFolders s3 (scan_prefix cfg mainFolder) = Some (Inr subFolders)
         \<and> (\<forall>subFolder \<in> set subFolders. \<forall>targetFolder \<in> set (FOLDERS_TO_DOWNLOAD cfg).
              \<exists>files. listAllFiles s3 (subFolder @ targetFolder) = Some (Inr files))"
  have "\<exists>st' w'. for_each (main_folder_body s3 fsys cfg) (MAIN_FOLDERS cfg) initial_stats w
                    = Some (Inr st', w')"
  proof (rule for_each_completes)
    fix m st w
    assume "m \<in> set (MAIN_FOLDERS cfg)"
    then obtain subFolders where
      s: "listFolders s3 (scan_prefix cfg m) = Some (Inr subFolders)"
      "\<forall>subFolder \<in> set subFolders. \<forall>targetFolder \<in> set (FOLDERS_TO_DOWNLOAD cfg).
         \<exists>files. listAllFiles s3 (subFolder @ targetFolder) = Some (Inr files)"
      using a by blast
    show "\<exists>st' w'. main_folder_body s3 fsys cfg m st w = Some (Inr st', w')"
      using s(2) by (intro main_folder_body_completes [OF s(1)]) blast
  qed
  then show r: "\<exists>st w'. downloadFromS3 s3 fsys cfg w = Some (Inr st, w')"
    by (simp add: downloadFromS3_def)
  then show "script s3 fsys cfg w = Some 0"
    by (auto simp: script_def exit_code_def)
next
  assume a: "downloadFromS3 s3 fsys cfg w = Some (Inl e, w')"
  then show "script s3 fsys cfg w = Some 1"
    by (simp add: script_def exit_code_def)
  from a have "for_each (main_folder_body s3 fsys cfg) (MAIN_FOLDERS cfg) initial_stats w
               = Some (Inl e, w')"
    by (simp add: downloadFromS3_def)
  then show "(\<exists>pfx. listFolders s3 pfx = Some (Inl e))
             \<or> (\<exists>pfx. listAllFiles s3 pfx = Some (Inl e))"
    by (blast dest: for_each_Inl main_folder_body_Inl)
next
  assume "script s3 fsys cfg w = Some code"
  then show "(code = 0 \<and> (\<exists>st w'. downloadFromS3 s3 fsys cfg w = Some (Inr st, w')))
        \<or> (code = 1 \<and> (\<exists>e w'. downloadFromS3 s3 fsys cfg w = Some (Inl e, w')))"
    by (auto simp: script_def exit_code_def split: option.splits sum.splits prod.splits)
qed

theorem exit_code_contract_witness:
  "(\<exists>st w'. downloadFromS3 demo_store posix_fs demo_config empty_world = Some (Inr st, w')
      \<and> totalFailed st = 2)
   \<and> script demo_store posix_fs demo_config empty_world = Some 0
   \<and> downloadFromS3 broken_store posix_fs demo_config empty_world
       = Some (Inl (Error ''RequestTimeout''), empty_world)
   \<and> script broken_store posix_fs demo_config empty_world = Some 1
   \<and> listFolders broken_store ''base/folder1/'' = Some (Inl (Error ''RequestTimeout''))"
proof -
  have h: "\<forall>mainFolder \<in> set (MAIN_FOLDERS demo_config).
       \<exists>subFolders. listFolders demo_store (scan_prefix demo_config mainFolder)
                      = Some (Inr subFolders)
         \<and> (\<forall>subFolder \<in> set subFolders.
              \<forall>targetFolder \<in> set (FOLDERS_TO_DOWNLOAD demo_config).
                \<exists>files. listAllFiles demo_store (subFolder @ targetFolder)
                          = Some (Inr files))"
    by (simp add: demo_config_def scan_prefix_def demo_listings)
  note d = exit_code_contract
    [of demo_config demo_store posix_fs empty_world, THEN conjunct1, THEN mp, OF h]
  have 1: "\<exists>st w'. downloadFromS3 demo_store posix_fs demo_config empty_world
                     = Some (Inr st, w') \<and> totalFailed st = 2"
    using demo_run by auto
  have 2: "script demo_store posix_fs demo_config empty_world = Some 0"
    using d by simp
  have l: "listFolders broken_store ''base/folder1/'' = Some (Inl (Error ''RequestTimeout''))"
    by (simp add: listFolders_def listFolders_loop.simps broken_store_def first_page_def
        next_token_def truthy_def)
  have 3: "downloadFromS3 broken_store posix_fs demo_config empty_world
           = Some (Inl (Error ''RequestTimeout''), empty_world)"
    by (simp add: downloadFromS3_def main_folder_body_def l and_then_def demo_config_def)
  have 4: "script broken_store posix_fs demo_config empty_world = Some 1"
    using exit_code_contract
      [of demo_config broken_store posix_fs empty_world "Error ''RequestTimeout''" empty_world,
        THEN conjunct2, THEN conjunct1, THEN mp, OF 3]
    by simp
  show ?thesis
    using 1 2 3 4 l by blast
qed


section \<open>Running twice\<close>

lemma rerun_lines:
  "list_all2 rerun_line lines1 lines2 \<Longrightarrow>
   map line_key lines2 = map line_key lines1 \<and> count_outcome Downloaded lines2 = 0"
  by (induction rule: list_all2_induct) (auto simp: rerun_line_def count_outcome_def)

text \<open>
  C4. The store answers a request in the second run as in the first, and the local root is
  \<open>posix_fs\<close> on a well-formed tree. When the first run ends, by completing or by the
  error of a listing, the second run started on the tree it left ends the same way and
  leaves the tree as it found it. It attempts the same keys in the same order; none of its
  console lines reports a download, and the line is a skip for every key that the first
  run downloaded or skipped; if it completes, \<open>totalDownloaded\<close> is 0.
\<close>

theorem second_run_downloads_nothing:
  assumes "well_formed (disk w)" and "downloadFromS3 s3 posix_fs cfg w = Some (r, w1)"
  shows "\<exists>r2 w2 lines1 lines2.
           downloadFromS3 s3 posix_fs cfg w1 = Some (r2, w2)
           \<and> disk w2 = disk w1
           \<and> console w1 = console w @ lines1 \<and> console w2 = console w1 @ lines2
           \<and> list_all2 rerun_line lines1 lines2
           \<and> map line_key lines2 = map line_key lines1
           \<and> count_outcome Downloaded lines2 = 0
           \<and> (case r of
                Inl e \<Rightarrow> r2 = Inl e
              | Inr st \<Rightarrow> (\<exists>st2. r2 = Inr st2 \<and> totalDownloaded st2 = 0))"
proof -
  let ?run = "for_each (main_folder_body s3 posix_fs cfg) (MAIN_FOLDERS cfg)"
  have "replays ?run"
    by (intro replays_for_each replays_main_folder)
  moreover have first: "?run initial_stats w = Some (r, w1)"
    using assms(2) by (simp add: downloadFromS3_def)
  ultimately obtain lines1 where
    1: "well_formed (disk w1)" "console w1 = console w @ lines1"
    and 2: "\<And>st2 w2. well_formed (disk w2) \<Longrightarrow> disk w1 \<subseteq>\<^sub>m disk w2 \<Longrightarrow>
              \<exists>r2 w3 lines2. ?run st2 w2 = Some (r2, w3) \<and> disk w3 = disk w2
                \<and> rerun_result r st2 r2 \<and> console w3 = console w2 @ lines2
                \<and> list_all2 rerun_line lines1 lines2"
    using assms(1) unfolding replays_def by blast
  from 2 [OF 1(1) map_le_refl, of initial_stats] obtain r2 w2 lines2 where
    3: "?run initial_stats w1 = Some (r2, w2)" "disk w2 = disk w1"
    "rerun_result r initial_stats r2" "console w2 = console w1 @ lines2"
    "list_all2 rerun_line lines1 lines2"
    by blast
  have "case r of
          Inl e \<Rightarrow> r2 = Inl e
        | Inr st \<Rightarrow> (\<exists>st2. r2 = Inr st2 \<and> totalDownloaded st2 = 0)"
    using 3(3) by (auto simp: rerun_result_def initial_stats_def split: sum.splits)
  moreover have "downloadFromS3 s3 posix_fs cfg w1 = Some (r2, w2)"
    using 3(1) by (simp add: downloadFromS3_def)
  ultimately show ?thesis
    using 1(2) 3(2,4,5) rerun_lines [OF 3(5)] by blast
qed

theorem second_run_downloads_nothing_witness:
  "well_formed (disk empty_world)
   \<and> (\<exists>st w1 st2 w2 lines2.
         downloadFromS3 demo_store posix_fs demo_config empty_world = Some (Inr st, w1)
         \<and> totalDownloaded st = 2
         \<and> downloadFromS3 demo_store posix_fs demo_config w1 = Some (Inr st2, w2)
         \<and> totalDownloaded st2 = 0
         \<and> disk w2 = disk w1
         \<and> console w2 = console w1 @ lines2
         \<and> map line_key lines2
             = [''base/folder1/rec-1/config.json'', ''base/folder1/rec-1/metadata.json'',
                ''base/folder1/rec-1/photos/img1.jpg'', ''base/folder1/rec-1/photos/img2.jpg'']
         \<and> count_outcome Downloaded lines2 = 0)"
proof -
  have wf: "well_formed (disk empty_world)"
    by (simp add: well_formed_def empty_world_def)
  obtain st w1 where
    first: "downloadFromS3 demo_store posix_fs demo_config empty_world = Some (Inr st, w1)"
    and d: "totalDownloaded st = 2"
    and c: "console w1
            = [Error_line ''base/folder1/rec-1/config.json'' ''NoSuchKey'',
               Downloaded_line ''base/folder1/rec-1/metadata.json'',
               Downloaded_line ''base/folder1/rec-1/photos/img1.jpg'',
               Error_line ''base/folder1/rec-1/photos/img2.jpg'' ''aborted'']"
    using demo_run by force
  from second_run_downloads_nothing [OF wf first] obtain r2 w2 lines1 lines2 where
    s: "downloadFromS3 demo_store posix_fs demo_config w1 = Some (r2, w2)"
    "disk w2 = disk w1" "console w1 = console empty_world @ lines1"
    "console w2 = console w1 @ lines2" "map line_key lines2 = map line_key lines1"
    "count_outcome Downloaded lines2 = 0"
    "\<exists>st2. r2 = Inr st2 \<and> totalDownloaded st2 = 0"
    by auto
  obtain st2 where st2: "r2 = Inr st2" "totalDownloaded st2 = 0"
    using s(7) by blast
  have "lines1 = console w1"
    using s(3) by (simp add: empty_world_def)
  then have k: "map line_key lines2
             = [''base/folder1/rec-1/config.json'', ''base/folder1/rec-1/metadata.json'',
                ''base/folder1/rec-1/photos/img1.jpg'', ''base/folder1/rec-1/photos/img2.jpg'']"
    using s(5) c by simp
  have "\<exists>st w1 st2 w2 lines2.
         downloadFromS3 demo_store posix_fs demo_config empty_world = Some (Inr st, w1)
         \<and> totalDownloaded st = 2
         \<and> downloadFromS3 demo_store posix_fs demo_config w1 = Some (Inr st2, w2)
         \<and> totalDownloaded st2 = 0
         \<and> disk w2 = disk w1
         \<and> console w2 = console w1 @ lines2
         \<and> map line_key lines2
             = [''base/folder1/rec-1/config.json'', ''base/folder1/rec-1/metadata.json'',
                ''base/folder1/rec-1/photos/img1.jpg'', ''base/folder1/rec-1/photos/img2.jpg'']
         \<and> count_outcome Downloaded lines2 = 0"
  proof (intro exI conjI)
    show "downloadFromS3 demo_store posix_fs demo_config empty_world = Some (Inr st, w1)"
      by (rule first)
    show "totalDownloaded st = 2"
      by (rule d)
    show "downloadFromS3 demo_store posix_fs demo_config w1 = Some (Inr st2, w2)"
      using s(1) st2(1) by simp
    show "totalDownloaded st2 = 0"
      by (rule st2(2))
    show "disk w2 = disk w1"
      by (rule s(2))
    show "console w2 = console w1 @ lines2"
      by (rule s(4))
    show "map line_key lines2
             = [''base/folder1/rec-1/config.json'', ''base/folder1/rec-1/metadata.json'',
                ''base/folder1/rec-1/photos/img1.jpg'', ''base/folder1/rec-1/photos/img2.jpg'']"
      by (rule k)
    show "count_outcome Downloaded lines2 = 0"
      by (rule s(6))
  qed
  with wf show ?thesis
    by (rule conjI)
qed


end
